theory Spec2Isabelle
  imports Complex_Main
begin

section \<open>Data model of \<open>app/utils.py\<close>\<close>

text \<open>
  The tracking and density engine lives in \<open>process_video\<close> and its helper
  \<open>_compute_iou\<close>. Python integers are modelled by \<open>int\<close> (list positions by
  \<open>nat\<close>), Python floats by \<open>real\<close>: confidences, thresholds, IoU values and
  percentages are real numbers and the arithmetic on them is exact, so the rounding of a
  float sum or quotient is not part of the model. The lane overlay
  (\<open>lane_stats\<close>) and every drawing call only write to the frame image and to a
  per-frame display dictionary that nothing else reads; they are left out.
\<close>

text \<open>The four tracked classes, in the key order of \<open>vehicle_colors\<close>.\<close>

datatype vclass = Car | Truck | Bus | Motorcycle

text \<open>\<open>class_map\<close>: the detector's class ids of the four vehicle classes.\<close>

definition class_map :: "int \<Rightarrow> vclass option" where
  "class_map c =
     (if c = 2 then Some Car
      else if c = 3 then Some Motorcycle
      else if c = 5 then Some Bus
      else if c = 7 then Some Truck
      else None)"

text \<open>A box \<open>(x1, y1, x2, y2)\<close> in integer pixel coordinates.\<close>

type_synonym box = "int \<times> int \<times> int \<times> int"

text \<open>An accepted detection: the pair \<open>((x1, y1, x2, y2), conf)\<close> stored in a bucket.\<close>

type_synonym detection = "box \<times> real"

text \<open>
  One element of \<open>results[0].boxes\<close> as the detector hands it over: the corner
  coordinates \<open>xyxy[0]\<close> (fractional pixel positions), the class id \<open>cls[0]\<close> and the
  confidence \<open>conf[0]\<close>.
\<close>

record yolo_box =
  xyxy :: "real \<times> real \<times> real \<times> real"
  cls :: int
  conf :: real

text \<open>The keyword parameters of \<open>process_video\<close>.\<close>

record params =
  conf_global :: real
  motorcycle_conf :: real
  iou_thresh :: real

definition default_params :: params where
  "default_params = \<lparr>conf_global = 0.6, motorcycle_conf = 0.75, iou_thresh = 0.3\<rparr>"

text \<open>A track: the dictionary with keys \<open>id\<close>, \<open>bbox\<close>, \<open>last_seen\<close>, \<open>hits\<close>, \<open>counted\<close>.\<close>

record track =
  track_id :: int
  bbox :: box
  last_seen :: int
  hits :: int
  counted :: bool

definition MAX_VEHICLES_PER_LANE :: int where
  "MAX_VEHICLES_PER_LANE = 15"

definition NUM_LANES :: int where
  "NUM_LANES = 3"

definition TRACK_TIMEOUT :: int where
  "TRACK_TIMEOUT = 30"

definition CONFIRM_HITS :: int where
  "CONFIRM_HITS = 3"

definition capacity :: int where
  "capacity = MAX_VEHICLES_PER_LANE * NUM_LANES"

section \<open>Geometry: \<open>_compute_iou\<close>\<close>

fun compute_iou :: "box \<Rightarrow> box \<Rightarrow> real" where
  "compute_iou (ax1, ay1, ax2, ay2) (bx1, by1, bx2, by2) =
     (let inter_x1 = max ax1 bx1;
          inter_y1 = max ay1 by1;
          inter_x2 = min ax2 bx2;
          inter_y2 = min ay2 by2;
          inter_w = max 0 (inter_x2 - inter_x1);
          inter_h = max 0 (inter_y2 - inter_y1);
          inter_area = inter_w * inter_h;
          area_a = max 0 (ax2 - ax1) * max 0 (ay2 - ay1);
          area_b = max 0 (bx2 - bx1) * max 0 (by2 - by1);
          union = area_a + area_b - inter_area
      in if union > 0 then real_of_int inter_area / real_of_int union else 0)"

text \<open>
  The quantities \<open>_compute_iou\<close> computes on the way, named so that statements can speak
  about them: the intersection area (line 19) and the union area (line 22).
\<close>

fun inter_area_of :: "box \<Rightarrow> box \<Rightarrow> int" where
  "inter_area_of (ax1, ay1, ax2, ay2) (bx1, by1, bx2, by2) =
     max 0 (min ax2 bx2 - max ax1 bx1) * max 0 (min ay2 by2 - max ay1 by1)"

fun union_area_of :: "box \<Rightarrow> box \<Rightarrow> int" where
  "union_area_of (ax1, ay1, ax2, ay2) (bx1, by1, bx2, by2) =
     max 0 (ax2 - ax1) * max 0 (ay2 - ay1) + max 0 (bx2 - bx1) * max 0 (by2 - by1)
       - inter_area_of (ax1, ay1, ax2, ay2) (bx1, by1, bx2, by2)"

text \<open>Two boxes overlap when their open interiors share a point.\<close>

fun overlapping :: "box \<Rightarrow> box \<Rightarrow> bool" where
  "overlapping (ax1, ay1, ax2, ay2) (bx1, by1, bx2, by2) =
     (max ax1 bx1 < min ax2 bx2 \<and> max ay1 by1 < min ay2 by2)"

fun non_degenerate :: "box \<Rightarrow> bool" where
  "non_degenerate (x1, y1, x2, y2) = (x1 < x2 \<and> y1 < y2)"

section \<open>Detection filter (lines 132--156)\<close>

text \<open>Python's \<open>int(x)\<close> on a float: truncation toward zero.\<close>

definition py_int :: "real \<Rightarrow> int" where
  "py_int x = (if x < 0 then \<lceil>x\<rceil> else \<lfloor>x\<rfloor>)"

text \<open>
  The body of the loop over \<open>boxes\<close>: \<open>None\<close> when the box is skipped (class not in
  \<open>class_map\<close>, or one of the two \<open>continue\<close>s), otherwise the bucket and the entry that
  is appended to it.
\<close>

definition accept_box :: "params \<Rightarrow> int \<Rightarrow> yolo_box \<Rightarrow> (vclass \<times> detection) option" where
  "accept_box P frame_area b =
     (case xyxy b of (rx1, ry1, rx2, ry2) \<Rightarrow>
        let x1 = py_int rx1; y1 = py_int ry1; x2 = py_int rx2; y2 = py_int ry2 in
        (case class_map (cls b) of
           None \<Rightarrow> None
         | Some vehicle_type \<Rightarrow>
             let conf_threshold =
                   (if vehicle_type = Motorcycle then motorcycle_conf P else conf_global P)
             in if conf b < conf_threshold then None
                else let box_area = max 1 ((x2 - x1) * (y2 - y1))
                  in if vehicle_type = Motorcycle
                        \<and> real_of_int box_area > 0.05 * real_of_int frame_area
                     then None
                     else Some (vehicle_type, ((x1, y1, x2, y2), conf b))))"

text \<open>The loop itself: \<open>detections_by_class\<close> after all boxes, from the empty buckets.\<close>

fun collate :: "params \<Rightarrow> int \<Rightarrow> yolo_box list \<Rightarrow> (vclass \<Rightarrow> detection list)
    \<Rightarrow> (vclass \<Rightarrow> detection list)" where
  "collate P frame_area [] dbc = dbc"
| "collate P frame_area (b # bs) dbc =
     collate P frame_area bs
       (case accept_box P frame_area b of
          None \<Rightarrow> dbc
        | Some (vehicle_type, d) \<Rightarrow> dbc(vehicle_type := dbc vehicle_type @ [d]))"

definition detections_by_class :: "params \<Rightarrow> int \<Rightarrow> yolo_box list \<Rightarrow> vclass \<Rightarrow> detection list" where
  "detections_by_class P frame_area boxes = collate P frame_area boxes (\<lambda>_. [])"

text \<open>
  Names for what the filter computes: the box after \<open>map(int, ...)\<close>, the
  \<open>box_area\<close> of line 152, the \<open>conf_threshold\<close> of lines 145--147, and the
  condition under which neither \<open>continue\<close> is taken for class \<open>v\<close>.
\<close>

definition int_box :: "yolo_box \<Rightarrow> box" where
  "int_box b = (case xyxy b of (rx1, ry1, rx2, ry2) \<Rightarrow>
     (py_int rx1, py_int ry1, py_int rx2, py_int ry2))"

fun clamped_area :: "box \<Rightarrow> int" where
  "clamped_area (x1, y1, x2, y2) = max 1 ((x2 - x1) * (y2 - y1))"

definition threshold_of :: "params \<Rightarrow> vclass \<Rightarrow> real" where
  "threshold_of P v = (if v = Motorcycle then motorcycle_conf P else conf_global P)"

definition survives :: "params \<Rightarrow> int \<Rightarrow> yolo_box \<Rightarrow> vclass \<Rightarrow> bool" where
  "survives P frame_area b v \<longleftrightarrow>
     class_map (cls b) = Some v
     \<and> conf b \<ge> threshold_of P v
     \<and> (v = Motorcycle \<longrightarrow>
          real_of_int (clamped_area (int_box b)) \<le> 0.05 * real_of_int frame_area)"

text \<open>
  The filter condition in the specification's words, on the detector's own box: a
  motorcycle is dropped when the area of its box exceeds 5 percent of the frame area.
\<close>

fun raw_area :: "real \<times> real \<times> real \<times> real \<Rightarrow> real" where
  "raw_area (x1, y1, x2, y2) = (x2 - x1) * (y2 - y1)"

definition spec_survives :: "params \<Rightarrow> int \<Rightarrow> yolo_box \<Rightarrow> vclass \<Rightarrow> bool" where
  "spec_survives P frame_area b v \<longleftrightarrow>
     class_map (cls b) = Some v
     \<and> conf b \<ge> threshold_of P v
     \<and> (v = Motorcycle \<longrightarrow> raw_area (xyxy b) \<le> 0.05 * real_of_int frame_area)"

text \<open>Two detector boxes used as concrete inputs below.\<close>

definition moto_box :: yolo_box where
  "moto_box = \<lparr>xyxy = (0.9, 0.9, 23.1, 23.1), cls = 3, conf = 0.9\<rparr>"

definition car_box :: yolo_box where
  "car_box = \<lparr>xyxy = (10.7, 20.2, 50.9, 60.5), cls = 2, conf = 0.9\<rparr>"

section \<open>Track store and greedy matcher (lines 159--200)\<close>

text \<open>Lines 161--165: the tracks that are kept.\<close>

definition fresh_tracks :: "int \<Rightarrow> track list \<Rightarrow> track list" where
  "fresh_tracks frame_idx ts = filter (\<lambda>t. frame_idx - last_seen t \<le> TRACK_TIMEOUT) ts"

text \<open>
  Lines 170--178: the scan over \<open>enumerate(dets)\<close> from position \<open>j\<close>, carrying
  \<open>(best_j, best_iou)\<close>. \<open>None\<close> stands for \<open>best_j = -1\<close>.
\<close>

fun best_match :: "box \<Rightarrow> nat set \<Rightarrow> detection list \<Rightarrow> nat \<Rightarrow> nat option \<times> real
    \<Rightarrow> nat option \<times> real" where
  "best_match tb used_det [] j acc = acc"
| "best_match tb used_det ((dbox, dconf) # ds) j (best_j, best_iou) =
     (if j \<in> used_det then best_match tb used_det ds (Suc j) (best_j, best_iou)
      else let iou = compute_iou tb dbox
        in if iou > best_iou then best_match tb used_det ds (Suc j) (Some j, iou)
           else best_match tb used_det ds (Suc j) (best_j, best_iou))"

text \<open>
  Lines 170--187: the body of the loop over the tracks, on the pair
  \<open>(used_det, unique_counts[vtype])\<close>.
\<close>

definition match_track :: "real \<Rightarrow> int \<Rightarrow> detection list \<Rightarrow> track \<Rightarrow> nat set \<times> int
    \<Rightarrow> track \<times> nat set \<times> int" where
  "match_track thr frame_idx dets t s =
     (case s of (used_det, uc) \<Rightarrow>
        (case best_match (bbox t) used_det dets 0 (None, 0) of
           (None, best_iou) \<Rightarrow> (t, used_det, uc)
         | (Some best_j, best_iou) \<Rightarrow>
             if best_iou \<ge> thr then
               let t1 = t\<lparr>bbox := fst (dets ! best_j), last_seen := frame_idx,
                            hits := hits t + 1\<rparr>
               in if \<not> counted t1 \<and> hits t1 \<ge> CONFIRM_HITS
                  then (t1\<lparr>counted := True\<rparr>, insert best_j used_det, uc + 1)
                  else (t1, insert best_j used_det, uc)
             else (t, used_det, uc)))"

fun match_tracks :: "real \<Rightarrow> int \<Rightarrow> detection list \<Rightarrow> track list \<Rightarrow> nat set \<times> int
    \<Rightarrow> track list \<times> nat set \<times> int" where
  "match_tracks thr frame_idx dets [] s = ([], s)"
| "match_tracks thr frame_idx dets (t # ts) s =
     (case match_track thr frame_idx dets t s of
        (t', s') \<Rightarrow>
          (case match_tracks thr frame_idx dets ts s' of
             (ts', s'') \<Rightarrow> (t' # ts', s'')))"

text \<open>
  Lines 190--200: the scan over \<open>enumerate(dets)\<close> from position \<open>j\<close>, on the pair
  \<open>(tracks[vtype], next_track_id[vtype])\<close>.
\<close>

fun create_tracks :: "int \<Rightarrow> nat set \<Rightarrow> detection list \<Rightarrow> nat \<Rightarrow> track list \<times> int
    \<Rightarrow> track list \<times> int" where
  "create_tracks frame_idx used_det [] j s = s"
| "create_tracks frame_idx used_det ((dbox, dconf) # ds) j (ts, nid) =
     (if j \<in> used_det then create_tracks frame_idx used_det ds (Suc j) (ts, nid)
      else create_tracks frame_idx used_det ds (Suc j)
             (ts @ [\<lparr>track_id = nid, bbox = dbox, last_seen = frame_idx, hits = 1,
                     counted = False\<rparr>], nid + 1))"

text \<open>
  Lines 160--200 for one class, on the triple
  \<open>(tracks[vtype], next_track_id[vtype], unique_counts[vtype])\<close>.
\<close>

definition track_class :: "real \<Rightarrow> int \<Rightarrow> detection list \<Rightarrow> track list \<times> int \<times> int
    \<Rightarrow> track list \<times> int \<times> int" where
  "track_class thr frame_idx dets s =
     (case s of (ts, nid, uc) \<Rightarrow>
        (case match_tracks thr frame_idx dets (fresh_tracks frame_idx ts) ({}, uc) of
           (ts1, used_det, uc1) \<Rightarrow>
             (case create_tracks frame_idx used_det dets 0 (ts1, nid) of
                (ts2, nid2) \<Rightarrow> (ts2, nid2, uc1))))"

text \<open>
  Names for what the matcher is about: the IoU of a track box against detection \<open>k\<close>,
  and detection \<open>k\<close> being the first one of highest IoU among those not yet used.
\<close>

definition iou_at :: "box \<Rightarrow> detection list \<Rightarrow> nat \<Rightarrow> real" where
  "iou_at tb dets k = compute_iou tb (fst (dets ! k))"

definition first_best :: "box \<Rightarrow> nat set \<Rightarrow> detection list \<Rightarrow> nat \<Rightarrow> bool" where
  "first_best tb used_det dets k \<longleftrightarrow>
     k < length dets \<and> k \<notin> used_det
     \<and> (\<forall>k' < length dets. k' \<notin> used_det \<longrightarrow> iou_at tb dets k' \<le> iou_at tb dets k)
     \<and> (\<forall>k' < k. k' \<notin> used_det \<longrightarrow> iou_at tb dets k' < iou_at tb dets k)"

text \<open>
  What holds of every stored track: it has at least one hit, and its \<open>counted\<close> flag
  is set exactly when its hits have reached \<open>CONFIRM_HITS\<close>.
\<close>

definition track_ok :: "track \<Rightarrow> bool" where
  "track_ok t \<longleftrightarrow> 1 \<le> hits t \<and> (counted t \<longleftrightarrow> CONFIRM_HITS \<le> hits t)"

text \<open>
  What holds of the triple \<open>(tracks[vtype], next_track_id[vtype], unique_counts[vtype])\<close>
  when frame \<open>f\<close> starts: every stored track is as above, was last seen in an earlier
  frame and carries an id already given out; the ids are distinct; and every counted
  vehicle and every stored uncounted track is a track that was created.
\<close>

definition class_inv :: "int \<Rightarrow> track list \<times> int \<times> int \<Rightarrow> bool" where
  "class_inv f s \<longleftrightarrow>
     (case s of (ts, nid, uc) \<Rightarrow>
        list_all (\<lambda>t. track_ok t \<and> last_seen t < f \<and> 1 \<le> track_id t \<and> track_id t < nid) ts
        \<and> distinct (map track_id ts)
        \<and> 0 \<le> uc
        \<and> uc + int (length (filter (\<lambda>t. \<not> counted t) ts)) \<le> nid - 1)"

text \<open>
  Names for what lines 190--200 produce: the detections whose position is not in
  \<open>used_det\<close>, in order, and the tracks made from a list of detections with ids
  counting up from \<open>nid\<close>.
\<close>

definition unmatched :: "nat set \<Rightarrow> detection list \<Rightarrow> nat \<Rightarrow> detection list" where
  "unmatched used_det ds j = map snd (filter (\<lambda>(k, d). k \<notin> used_det) (enumerate j ds))"

fun new_tracks :: "int \<Rightarrow> int \<Rightarrow> detection list \<Rightarrow> track list" where
  "new_tracks frame_idx nid [] = []"
| "new_tracks frame_idx nid (d # ds) =
     \<lparr>track_id = nid, bbox = fst d, last_seen = frame_idx, hits = 1, counted = False\<rparr>
       # new_tracks frame_idx (nid + 1) ds"

text \<open>
  Concrete inputs for the matcher: two stored tracks, and three detections of which the
  second and third have the same box.
\<close>

definition track_a :: track where
  "track_a = \<lparr>track_id = 1, bbox = (10, 20, 50, 60), last_seen = 4, hits = 2, counted = False\<rparr>"

definition track_b :: track where
  "track_b = \<lparr>track_id = 2, bbox = (12, 20, 52, 60), last_seen = 4, hits = 5, counted = True\<rparr>"

definition dets_w :: "detection list" where
  "dets_w = [((100, 100, 140, 140), 0.9), ((10, 20, 50, 60), 0.8), ((10, 20, 50, 60), 0.9)]"

section \<open>The run: \<open>process_video\<close>\<close>

text \<open>The local variables of \<open>process_video\<close> that live across frames.\<close>

record run_state =
  tracks :: "vclass \<Rightarrow> track list"
  next_track_id :: "vclass \<Rightarrow> int"
  unique_counts :: "vclass \<Rightarrow> int"
  max_total_concurrent :: int
  density_series :: "real list"
  accepted_conf_sum :: real
  accepted_conf_count :: int
  frame_count :: int
  frame_idx :: int
  total_this_frame :: int

definition init_state :: run_state where
  "init_state =
     \<lparr>tracks = (\<lambda>_. []), next_track_id = (\<lambda>_. 1), unique_counts = (\<lambda>_. 0),
      max_total_concurrent = 0, density_series = [], accepted_conf_sum = 0,
      accepted_conf_count = 0, frame_count = 0, frame_idx = 0, total_this_frame = 0\<rparr>"

text \<open>Lines 205--207: the confidence bookkeeping loop.\<close>

fun add_confs :: "detection list \<Rightarrow> real \<times> int \<Rightarrow> real \<times> int" where
  "add_confs [] s = s"
| "add_confs ((dbox, dconf) # ds) (csum, ccount) = add_confs ds (csum + dconf, ccount + 1)"

text \<open>Lines 159--207: the body of the loop over \<open>detections_by_class.items()\<close>.\<close>

definition class_body :: "params \<Rightarrow> (vclass \<Rightarrow> detection list) \<Rightarrow> run_state \<Rightarrow> vclass
    \<Rightarrow> run_state" where
  "class_body P dbc st vtype =
     (let dets = dbc vtype in
        (case track_class (iou_thresh P) (frame_idx st) dets
                (tracks st vtype, next_track_id st vtype, unique_counts st vtype) of
           (ts, nid, uc) \<Rightarrow>
             (case add_confs dets (accepted_conf_sum st, accepted_conf_count st) of
                (csum, ccount) \<Rightarrow>
                  st\<lparr>tracks := (tracks st)(vtype := ts),
                     next_track_id := (next_track_id st)(vtype := nid),
                     unique_counts := (unique_counts st)(vtype := uc),
                     total_this_frame := total_this_frame st + int (length dets),
                     accepted_conf_sum := csum,
                     accepted_conf_count := ccount\<rparr>)))"

definition class_order :: "vclass list" where
  "class_order = [Car, Truck, Bus, Motorcycle]"

text \<open>
  Lines 110--276: one iteration of the \<open>while\<close> loop. A frame is given by what the
  detector returns for it: \<open>results\<close>, a list whose first element carries the boxes.
\<close>

definition process_frame :: "params \<Rightarrow> int \<Rightarrow> int \<Rightarrow> run_state \<Rightarrow> yolo_box list list
    \<Rightarrow> run_state" where
  "process_frame P frame_area sample_every st results =
     (let st0 = st\<lparr>total_this_frame := 0\<rparr>;
          st1 = (case results of
                   [] \<Rightarrow> st0
                 | r # _ \<Rightarrow>
                     foldl (class_body P (detections_by_class P frame_area r)) st0 class_order);
          st2 = (if total_this_frame st1 > max_total_concurrent st1
                 then st1\<lparr>max_total_concurrent := total_this_frame st1\<rparr> else st1);
          st3 = (if frame_idx st2 mod sample_every = 0
                 then st2\<lparr>density_series := density_series st2 @
                        [min 100 (real_of_int (total_this_frame st2) / real_of_int capacity * 100)]\<rparr>
                 else st2)
      in st3\<lparr>frame_count := frame_count st3 + 1, frame_idx := frame_idx st3 + 1\<rparr>)"

fun run_frames :: "params \<Rightarrow> int \<Rightarrow> int \<Rightarrow> run_state \<Rightarrow> yolo_box list list list
    \<Rightarrow> run_state" where
  "run_frames P frame_area sample_every st [] = st"
| "run_frames P frame_area sample_every st (results # rest) =
     run_frames P frame_area sample_every (process_frame P frame_area sample_every st results) rest"

text \<open>
  What \<open>process_video\<close> gets from the outside: whether the capture and the writer open,
  the stream's properties, and for each frame read the detector's output.
\<close>

record video =
  cap_opened :: bool
  fps :: int
  width :: int
  height :: int
  out_opened :: bool
  frames :: "yolo_box list list list"

datatype error = IOError string | ValueError string

text \<open>The dictionary \<open>process_video\<close> returns.\<close>

record result =
  total_vehicles :: int
  density :: real
  vehicle_counts :: "vclass \<Rightarrow> int"
  density_series_out :: "real list"
  avg_confidence :: real
  low_confidence :: bool

definition process_video :: "params \<Rightarrow> video \<Rightarrow> error + result" where
  "process_video P V =
     (if \<not> cap_opened V then Inl (IOError ''Cannot open video file'')
      else if \<not> out_opened V then Inl (IOError ''Cannot create output video file'')
      else
        let frame_area = width V * height V;
            sample_every = max 1 (fps V div 5);
            st = run_frames P frame_area sample_every init_state (frames V)
        in if frame_count st = 0
           then Inl (ValueError ''No frames were processed from the video'')
           else
             let density_percentage =
                   min 100 (real_of_int (max_total_concurrent st) / real_of_int capacity * 100);
                 avg_conf = (if accepted_conf_count st \<noteq> 0
                             then accepted_conf_sum st / real_of_int (accepted_conf_count st)
                             else 0);
                 low_conf = (avg_conf < 0.55)
             in Inr \<lparr>total_vehicles = sum_list (map (unique_counts st) class_order),
                     density = density_percentage,
                     vehicle_counts = unique_counts st,
                     density_series_out = density_series st,
                     avg_confidence = avg_conf,
                     low_confidence = low_conf\<rparr>)"

text \<open>
  Names for the per-frame quantities the aggregation is about: the accepted detections of
  a frame, class by class in the order of the class loop (none when \<open>results\<close> is
  empty), and the value \<open>total_this_frame\<close> has at line 234 for that frame.
\<close>

definition accepted_dets :: "params \<Rightarrow> int \<Rightarrow> yolo_box list list \<Rightarrow> detection list" where
  "accepted_dets P frame_area results =
     (case results of
        [] \<Rightarrow> []
      | r # _ \<Rightarrow> concat (map (detections_by_class P frame_area r) class_order))"

definition frame_total :: "params \<Rightarrow> int \<Rightarrow> yolo_box list list \<Rightarrow> int" where
  "frame_total P frame_area results =
     (case results of
        [] \<Rightarrow> 0
      | r # _ \<Rightarrow> (\<Sum>v\<leftarrow>class_order. int (length (detections_by_class P frame_area r v))))"

text \<open>The triple of one class in a run state, and the invariant of all four.\<close>

definition class_state :: "run_state \<Rightarrow> vclass \<Rightarrow> track list \<times> int \<times> int" where
  "class_state st v = (tracks st v, next_track_id st v, unique_counts st v)"

definition state_inv :: "run_state \<Rightarrow> bool" where
  "state_inv st \<longleftrightarrow> list_all (\<lambda>v. class_inv (frame_idx st) (class_state st v)) class_order"

text \<open>
  A concrete run: five frames, each with the same single car box at confidence 0.9, on a
  100 by 100 stream at 10 frames per second (so every second frame is sampled).
\<close>

definition scenario_A :: video where
  "scenario_A =
     \<lparr>cap_opened = True, fps = 10, width = 100, height = 100, out_opened = True,
      frames = [[[car_box]], [[car_box]], [[car_box]], [[car_box]], [[car_box]]]\<rparr>"

text \<open>
  A second concrete run: the car box in frame 0, then thirty frames in which the detector
  finds nothing.
\<close>

definition scenario_expiry :: "yolo_box list list list" where
  "scenario_expiry = [[car_box]] # replicate 30 [[]]"

text \<open>
  Further detector boxes for concrete runs: a car far away from \<open>car_box\<close>, and a car
  whose box overlaps \<open>car_box\<close> with IoU \<open>19/21\<close>.
\<close>

definition far_box :: yolo_box where
  "far_box = \<lparr>xyxy = (100.4, 100.2, 140.6, 140.9), cls = 2, conf = 0.9\<rparr>"




section \<open>Properties of the geometry\<close>

lemma inter_area_of_eq: "inter_area_of a b = inter_area_of b a"
  by (cases a; cases b) (simp add: max.commute min.commute)

lemma union_area_of_commute: "union_area_of a b = union_area_of b a"
  by (cases a; cases b) (simp add: max.commute min.commute)

lemma compute_iou_unfold:
  "compute_iou a b =
     (if union_area_of a b > 0
      then real_of_int (inter_area_of a b) / real_of_int (union_area_of a b) else 0)"
  by (cases a; cases b) (simp add: Let_def)

lemma inter_area_of_nonneg: "0 \<le> inter_area_of a b"
  by (cases a; cases b) simp

lemma inter_area_le_left:
  "inter_area_of (ax1, ay1, ax2, ay2) (bx1, by1, bx2, by2)
     \<le> max 0 (ax2 - ax1) * max 0 (ay2 - ay1)"
  unfolding inter_area_of.simps
  by (rule mult_mono) auto

lemma inter_area_le_right:
  "inter_area_of (ax1, ay1, ax2, ay2) (bx1, by1, bx2, by2)
     \<le> max 0 (bx2 - bx1) * max 0 (by2 - by1)"
  unfolding inter_area_of.simps
  by (rule mult_mono) auto

lemma inter_le_union: "inter_area_of a b \<le> union_area_of a b"
proof (cases a; cases b)
  fix ax1 ay1 ax2 ay2 bx1 by1 bx2 by2
  assume a: "a = (ax1, ay1 :: int, ax2 :: int, ay2 :: int)"
    and b: "b = (bx1, by1 :: int, bx2 :: int, by2 :: int)"
  from inter_area_le_left [of ax1 ay1 ax2 ay2 bx1 by1 bx2 by2]
    inter_area_le_right [of ax1 ay1 ax2 ay2 bx1 by1 bx2 by2]
  show ?thesis unfolding a b union_area_of.simps by linarith
qed

lemma compute_iou_range: "0 \<le> compute_iou a b \<and> compute_iou a b \<le> 1"
  using inter_area_of_nonneg [of a b] inter_le_union [of a b]
  by (simp add: compute_iou_unfold)

lemma compute_iou_self: "non_degenerate a \<Longrightarrow> compute_iou a a = 1"
  by (cases a) (simp add: Let_def)

lemma compute_iou_disjoint: "\<not> overlapping a b \<Longrightarrow> compute_iou a b = 0"
  by (cases a; cases b) (auto simp add: Let_def max_def)

text \<open>
  Claim C8. \<open>_compute_iou\<close> is symmetric; it is 1 on a non-degenerate box against
  itself; it is 0 on boxes that do not overlap; it lies between 0 and 1; the intersection
  area it divides is never negative; it is the quotient of intersection and union area
  when the union area is positive and 0 otherwise, in particular when the union area is 0.
\<close>

theorem compute_iou_properties:
  "compute_iou a b = compute_iou b a
   \<and> (non_degenerate a \<longrightarrow> compute_iou a a = 1)
   \<and> (\<not> overlapping a b \<longrightarrow> compute_iou a b = 0)
   \<and> 0 \<le> compute_iou a b \<and> compute_iou a b \<le> 1
   \<and> 0 \<le> inter_area_of a b
   \<and> compute_iou a b =
       (if union_area_of a b > 0
        then real_of_int (inter_area_of a b) / real_of_int (union_area_of a b) else 0)
   \<and> (union_area_of a b = 0 \<longrightarrow> compute_iou a b = 0)"
proof -
  have sym: "compute_iou a b = compute_iou b a"
    by (simp add: compute_iou_unfold inter_area_of_eq [of a b]
        union_area_of_commute [of a b])
  have zero: "union_area_of a b = 0 \<longrightarrow> compute_iou a b = 0"
    by (simp add: compute_iou_unfold)
  show ?thesis
    using sym zero compute_iou_self [of a] compute_iou_disjoint [of a b]
      compute_iou_range [of a b] inter_area_of_nonneg [of a b] compute_iou_unfold [of a b]
    by blast
qed

theorem compute_iou_properties_witness:
  "compute_iou (0, 0, 10, 10) (5, 5, 15, 15) = compute_iou (5, 5, 15, 15) (0, 0, 10, 10)
   \<and> compute_iou (0, 0, 10, 10) (5, 5, 15, 15) = 1 / 7
   \<and> non_degenerate (0, 0, 10, 10) \<and> compute_iou (0, 0, 10, 10) (0, 0, 10, 10) = 1
   \<and> \<not> overlapping (0, 0, 10, 10) (10, 0, 20, 10)
   \<and> compute_iou (0, 0, 10, 10) (10, 0, 20, 10) = 0
   \<and> union_area_of (3, 3, 3, 3) (7, 7, 7, 9) = 0
   \<and> compute_iou (3, 3, 3, 3) (7, 7, 7, 9) = 0"
  using compute_iou_properties [of "(0, 0, 10, 10)" "(5, 5, 15, 15)"]
    compute_iou_properties [of "(0, 0, 10, 10)" "(0, 0, 10, 10)"]
    compute_iou_properties [of "(0, 0, 10, 10)" "(10, 0, 20, 10)"]
    compute_iou_properties [of "(3, 3, 3, 3)" "(7, 7, 7, 9)"]
  by simp

section \<open>Properties of the detection filter\<close>

lemma class_map_cases:
  "class_map c = Some v \<longleftrightarrow>
     (c = 2 \<and> v = Car) \<or> (c = 3 \<and> v = Motorcycle) \<or> (c = 5 \<and> v = Bus) \<or> (c = 7 \<and> v = Truck)"
  by (auto simp add: class_map_def)

lemma accept_box_Some:
  "accept_box P frame_area b = Some (v, d) \<longleftrightarrow>
     survives P frame_area b v \<and> d = (int_box b, conf b)"
  by (cases "xyxy b"; cases "class_map (cls b)")
     (auto simp add: accept_box_def survives_def int_box_def threshold_of_def Let_def)

lemma accept_box_None:
  "accept_box P frame_area b = None \<longleftrightarrow> (\<forall>v. \<not> survives P frame_area b v)"
proof
  assume none: "accept_box P frame_area b = None"
  show "\<forall>v. \<not> survives P frame_area b v"
  proof (intro allI notI)
    fix v
    assume "survives P frame_area b v"
    then have "accept_box P frame_area b = Some (v, (int_box b, conf b))"
      by (simp add: accept_box_Some)
    with none show False by simp
  qed
next
  assume no: "\<forall>v. \<not> survives P frame_area b v"
  show "accept_box P frame_area b = None"
  proof (cases "accept_box P frame_area b")
    case None
    then show ?thesis .
  next
    case (Some p)
    then have "accept_box P frame_area b = Some (fst p, snd p)" by simp
    then have "survives P frame_area b (fst p)" by (simp only: accept_box_Some)
    with no show ?thesis by simp
  qed
qed

lemma collate_bucket:
  "collate P frame_area boxes dbc v =
     dbc v @ map (\<lambda>b. (int_box b, conf b)) (filter (\<lambda>b. survives P frame_area b v) boxes)"
proof (induction boxes arbitrary: dbc)
  case Nil
  then show ?case by simp
next
  case (Cons b bs)
  show ?case
  proof (cases "accept_box P frame_area b")
    case None
    then show ?thesis using Cons accept_box_None [of P frame_area b] by simp
  next
    case (Some p)
    obtain w d where p: "p = (w, d)" by (cases p)
    from Some p have acc: "accept_box P frame_area b = Some (w, d)" by simp
    then have w: "survives P frame_area b w" and d: "d = (int_box b, conf b)"
      by (simp_all add: accept_box_Some)
    have uniq: "survives P frame_area b v \<longleftrightarrow> v = w"
      using w by (auto simp add: survives_def)
    show ?thesis using Cons acc d uniq by simp
  qed
qed

lemma survives_pixel_box:
  assumes "xyxy b = (real_of_int x1, real_of_int y1, real_of_int x2, real_of_int y2)"
    and "x1 < x2" and "y1 < y2"
  shows "int_box b = (x1, y1, x2, y2)"
    and "survives P frame_area b v \<longleftrightarrow> spec_survives P frame_area b v"
proof -
  show ib: "int_box b = (x1, y1, x2, y2)"
    using assms(1) by (simp add: int_box_def py_int_def)
  have "0 < (x2 - x1) * (y2 - y1)" using assms(2,3) by simp
  then have "max 1 ((x2 - x1) * (y2 - y1)) = (x2 - x1) * (y2 - y1)" by simp
  then have "real_of_int (clamped_area (int_box b)) = raw_area (xyxy b)"
    using assms(1) ib by simp
  then show "survives P frame_area b v \<longleftrightarrow> spec_survives P frame_area b v"
    by (simp add: survives_def spec_survives_def)
qed

text \<open>
  Claim C6, amended. A detector box survives the filter for class \<open>v\<close> exactly when its
  class id maps to \<open>v\<close> (2 car, 3 motorcycle, 5 bus, 7 truck, nothing else), its
  confidence is at least the threshold of \<open>v\<close>, and, for a motorcycle, the area of the
  box with its coordinates truncated to integers, taken as at least 1, is at most 5 percent
  of the frame area. The bucket of \<open>v\<close> holds, in detector order, the survivors with
  their truncated box and their confidence as it came.
\<close>

theorem detection_filter_iff:
  "(accept_box P frame_area b = Some (v, d) \<longleftrightarrow>
      survives P frame_area b v \<and> d = (int_box b, conf b))
   \<and> (accept_box P frame_area b = None \<longleftrightarrow> (\<forall>v. \<not> survives P frame_area b v))
   \<and> detections_by_class P frame_area boxes v =
       map (\<lambda>b. (int_box b, conf b)) (filter (\<lambda>b. survives P frame_area b v) boxes)
   \<and> (class_map c = Some v \<longleftrightarrow>
        (c = 2 \<and> v = Car) \<or> (c = 3 \<and> v = Motorcycle) \<or> (c = 5 \<and> v = Bus)
        \<or> (c = 7 \<and> v = Truck))"
  using accept_box_Some [of P frame_area b v d] accept_box_None [of P frame_area b]
    collate_bucket [of P frame_area boxes "\<lambda>_. []" v] class_map_cases [of c v]
  by (simp add: detections_by_class_def)

text \<open>
  Claim C6 as stated fails: a motorcycle box of area \<open>22.2 * 22.2 = 492.84\<close>, below 5
  percent of a 100 by 100 frame, is dropped, because its truncated box is 23 by 23.
\<close>

theorem detection_filter_counterexample:
  "spec_survives default_params 10000 moto_box Motorcycle
   \<and> accept_box default_params 10000 moto_box = None"
  by (simp add: spec_survives_def moto_box_def accept_box_def default_params_def
      threshold_of_def class_map_def py_int_def)

theorem detection_filter_iff_witness:
  "survives default_params 10000 car_box Car
   \<and> accept_box default_params 10000 car_box = Some (Car, ((10, 20, 50, 60), 0.9))
   \<and> accept_box default_params 10000 moto_box = None
   \<and> detections_by_class default_params 10000 [moto_box, car_box] Car = [((10, 20, 50, 60), 0.9)]
   \<and> detections_by_class default_params 10000 [moto_box, car_box] Motorcycle = []"
  using detection_filter_iff [of default_params 10000 car_box Car "((10, 20, 50, 60), 0.9)" "[moto_box, car_box]" 2]
   detection_filter_iff [of default_params 10000 moto_box Motorcycle "((10, 20, 50, 60), 0.9)" "[moto_box, car_box]" 3]
  by (simp add: survives_def moto_box_def car_box_def default_params_def
      threshold_of_def class_map_def py_int_def int_box_def)

section \<open>Properties of the aggregation\<close>

lemma add_confs_eq:
  "add_confs ds (s, c) = (s + sum_list (map snd ds), c + int (length ds))"
  by (induction ds arbitrary: s c) (auto simp add: algebra_simps)

lemma class_body_aggregates:
  "frame_idx (class_body P dbc st v) = frame_idx st"
  "frame_count (class_body P dbc st v) = frame_count st"
  "max_total_concurrent (class_body P dbc st v) = max_total_concurrent st"
  "density_series (class_body P dbc st v) = density_series st"
  "total_this_frame (class_body P dbc st v) = total_this_frame st + int (length (dbc v))"
  "accepted_conf_sum (class_body P dbc st v) = accepted_conf_sum st + sum_list (map snd (dbc v))"
  "accepted_conf_count (class_body P dbc st v) = accepted_conf_count st + int (length (dbc v))"
  by (simp_all add: class_body_def Let_def add_confs_eq split: prod.splits)

lemma class_loop_aggregates:
  fixes P dbc st
  defines "st' \<equiv> foldl (class_body P dbc) st class_order"
  shows "frame_idx st' = frame_idx st"
    and "frame_count st' = frame_count st"
    and "max_total_concurrent st' = max_total_concurrent st"
    and "density_series st' = density_series st"
    and "total_this_frame st' = total_this_frame st + (\<Sum>v\<leftarrow>class_order. int (length (dbc v)))"
    and "accepted_conf_sum st' =
           accepted_conf_sum st + sum_list (map snd (concat (map dbc class_order)))"
    and "accepted_conf_count st' =
           accepted_conf_count st + int (length (concat (map dbc class_order)))"
  by (simp_all add: st'_def class_order_def class_body_aggregates)

lemma frame_total_accepted:
  "frame_total P frame_area results = int (length (accepted_dets P frame_area results))"
  by (cases results) (simp_all add: frame_total_def accepted_dets_def class_order_def)

lemma frame_total_nonneg: "0 \<le> frame_total P frame_area results"
  by (simp add: frame_total_accepted)

lemma process_frame_aggregates:
  fixes P frame_area sample_every st results
  defines "st' \<equiv> process_frame P frame_area sample_every st results"
  shows "frame_idx st' = frame_idx st + 1"
    and "frame_count st' = frame_count st + 1"
    and "max_total_concurrent st' =
           max (max_total_concurrent st) (frame_total P frame_area results)"
    and "density_series st' = density_series st @
           (if frame_idx st mod sample_every = 0
            then [min 100 (real_of_int (frame_total P frame_area results)
                    / real_of_int capacity * 100)]
            else [])"
    and "accepted_conf_sum st' =
           accepted_conf_sum st + sum_list (map snd (accepted_dets P frame_area results))"
    and "accepted_conf_count st' =
           accepted_conf_count st + int (length (accepted_dets P frame_area results))"
  by (cases results;
      simp add: st'_def process_frame_def Let_def class_loop_aggregates frame_total_def
        accepted_dets_def)+

lemma run_frames_snoc:
  "run_frames P frame_area sample_every st (fs @ [f]) =
     process_frame P frame_area sample_every (run_frames P frame_area sample_every st fs) f"
  by (induction fs arbitrary: st) simp_all

lemma run_frames_counters:
  "frame_idx (run_frames P frame_area sample_every init_state fs) = int (length fs)"
  "frame_count (run_frames P frame_area sample_every init_state fs) = int (length fs)"
  by (induction fs rule: rev_induct)
     (simp_all add: run_frames_snoc process_frame_aggregates init_state_def)

lemma run_frames_max:
  "max_total_concurrent (run_frames P frame_area sample_every init_state fs) =
     Max (insert 0 (set (map (frame_total P frame_area) fs)))"
proof (induction fs rule: rev_induct)
  case Nil
  then show ?case by (simp add: init_state_def)
next
  case (snoc f fs)
  have "Max (insert 0 (set (map (frame_total P frame_area) (fs @ [f])))) =
        Max (insert (frame_total P frame_area f)
               (insert 0 (set (map (frame_total P frame_area) fs))))"
    by (simp add: insert_commute)
  also have "\<dots> = max (frame_total P frame_area f)
                     (Max (insert 0 (set (map (frame_total P frame_area) fs))))"
    by (rule Max_insert) simp_all
  finally show ?case
    using snoc by (simp add: run_frames_snoc process_frame_aggregates max.commute)
qed

lemma Max_frame_totals:
  assumes "fs \<noteq> []"
  shows "Max (insert 0 (set (map (frame_total P frame_area) fs))) =
         Max (set (map (frame_total P frame_area) fs))"
proof -
  let ?S = "set (map (frame_total P frame_area) fs)"
  have ne: "?S \<noteq> {}" and fin: "finite ?S" using assms by simp_all
  have "0 \<le> Max ?S"
  proof -
    from assms obtain f where "f \<in> set fs" by (cases fs) auto
    then have "frame_total P frame_area f \<in> ?S" by simp
    then obtain x where x: "x \<in> ?S" by (rule that)
    then have "0 \<le> x" by (auto simp add: frame_total_nonneg)
    also have "x \<le> Max ?S" using fin x by (rule Max_ge)
    finally show ?thesis .
  qed
  moreover have "Max (insert 0 ?S) = max 0 (Max ?S)"
    using fin ne by (rule Max_insert)
  ultimately show ?thesis by simp
qed

lemma run_frames_series:
  "density_series (run_frames P frame_area sample_every init_state fs) =
     map (\<lambda>i. min 100 (real_of_int (frame_total P frame_area (fs ! i))
                  / real_of_int capacity * 100))
       (filter (\<lambda>i. int i mod sample_every = 0) [0..<length fs])"
proof (induction fs rule: rev_induct)
  case Nil
  then show ?case by (simp add: init_state_def)
next
  case (snoc f fs)
  have old: "map (\<lambda>i. min 100 (real_of_int (frame_total P frame_area ((fs @ [f]) ! i))
                  / real_of_int capacity * 100))
               (filter (\<lambda>i. int i mod sample_every = 0) [0..<length fs]) =
             map (\<lambda>i. min 100 (real_of_int (frame_total P frame_area (fs ! i))
                  / real_of_int capacity * 100))
               (filter (\<lambda>i. int i mod sample_every = 0) [0..<length fs])"
    by (rule map_cong) (auto simp add: nth_append)
  show ?case
    using snoc old
    by (simp add: run_frames_snoc process_frame_aggregates run_frames_counters)
qed

lemma run_frames_confidence:
  "accepted_conf_sum (run_frames P frame_area sample_every init_state fs) =
     sum_list (map snd (concat (map (accepted_dets P frame_area) fs)))"
  "accepted_conf_count (run_frames P frame_area sample_every init_state fs) =
     int (length (concat (map (accepted_dets P frame_area) fs)))"
  by (induction fs rule: rev_induct)
     (simp_all add: run_frames_snoc process_frame_aggregates init_state_def)

lemma div_qr: "r < s \<Longrightarrow> (q * s + r) div s = (q::nat)"
  by simp

lemma ceil_div_exact:
  assumes "0 < s" "n mod s = 0"
  shows "(n + s - 1) div s = n div (s::nat)"
proof -
  from assms(2) have "s dvd n" by (simp add: dvd_eq_mod_eq_0)
  then obtain k where k: "n = s * k" by (rule dvdE)
  have "n + s - 1 = k * s + (s - 1)" using assms(1) k by (simp add: mult.commute)
  moreover have "s - 1 < s" using assms(1) by simp
  ultimately have "(n + s - 1) div s = k" by (simp only: div_qr)
  then show ?thesis using k assms(1) by simp
qed

lemma ceil_div_inexact:
  assumes "0 < s" "n mod s \<noteq> 0"
  shows "(n + s - 1) div s = Suc (n div (s::nat))"
proof -
  define q where "q = n div s"
  define r where "r = n mod s"
  have n: "n = q * s + r" by (simp add: q_def r_def)
  have r: "r < s" "0 < r" using assms by (simp_all add: r_def)
  have "q * s + r + s - 1 = (q + 1) * s + (r - 1)" using r(2) by (simp add: algebra_simps)
  then have "n + s - 1 = (q + 1) * s + (r - 1)" by (simp only: n)
  moreover have "r - 1 < s" using r by simp
  ultimately have "(n + s - 1) div s = q + 1" by (simp only: div_qr)
  then show ?thesis by (simp add: q_def)
qed

lemma multiples_below:
  assumes "0 < s"
  shows "filter (\<lambda>i. i mod s = 0) [0..<n] = map (\<lambda>k. k * s) [0..<(n + s - 1) div s]"
proof (induction n)
  case 0
  then show ?case using assms by simp
next
  case (Suc n)
  have up: "(Suc n + s - 1) div s = Suc (n div s)" using assms by simp
  show ?case
  proof (cases "n mod s = 0")
    case True
    with assms have "(n + s - 1) div s = n div s" by (rule ceil_div_exact)
    moreover have "n div s * s = n" using True by (simp add: dvd_eq_mod_eq_0 [symmetric])
    ultimately show ?thesis using Suc True up by (simp del: upt_Suc add: upt_Suc_append)
  next
    case False
    with assms have "(n + s - 1) div s = Suc (n div s)" by (rule ceil_div_inexact)
    then show ?thesis using Suc False up by (simp del: upt_Suc add: upt_Suc_append)
  qed
qed

section \<open>The result of a run\<close>

lemma process_video_closed:
  assumes "cap_opened V" and "out_opened V" and "frames V \<noteq> []"
  shows "process_video P V =
     (let st = run_frames P (width V * height V) (max 1 (fps V div 5)) init_state (frames V);
          avg = (if accepted_conf_count st \<noteq> 0
                 then accepted_conf_sum st / real_of_int (accepted_conf_count st) else 0)
      in Inr \<lparr>total_vehicles = sum_list (map (unique_counts st) class_order),
              density = min 100 (real_of_int (max_total_concurrent st)
                          / real_of_int capacity * 100),
              vehicle_counts = unique_counts st,
              density_series_out = density_series st,
              avg_confidence = avg,
              low_confidence = (avg < 0.55)\<rparr>)"
  using assms by (simp add: process_video_def Let_def run_frames_counters)

text \<open>
  Claim C3. When no frame is read, \<open>process_video\<close> raises: it returns no result record,
  whatever the parameters and the stream's properties; with capture and writer open the
  exception is the \<open>ValueError\<close> of line 283.
\<close>

theorem process_video_no_frames:
  "process_video P (V\<lparr>frames := []\<rparr>) =
     Inl (if \<not> cap_opened V then IOError ''Cannot open video file''
          else if \<not> out_opened V then IOError ''Cannot create output video file''
          else ValueError ''No frames were processed from the video'')"
  by (simp add: process_video_def Let_def init_state_def)

theorem process_video_no_frames_witness:
  "process_video default_params (scenario_A\<lparr>frames := []\<rparr>) =
     Inl (ValueError ''No frames were processed from the video'')"
  using process_video_no_frames [of default_params scenario_A]
  by (simp add: scenario_A_def)

text \<open>The filter on the frames of the concrete run.\<close>

lemma accept_car_box:
  "accept_box default_params 10000 car_box = Some (Car, ((10, 20, 50, 60), 0.9))"
  by (simp add: accept_box_def car_box_def default_params_def class_map_def py_int_def)

lemma buckets_car_box:
  "detections_by_class default_params 10000 [car_box] v =
     (if v = Car then [((10, 20, 50, 60), 0.9)] else [])"
  by (simp add: detections_by_class_def accept_car_box)

lemma accepted_car_box:
  "accepted_dets default_params 10000 [[car_box]] = [((10, 20, 50, 60), 0.9)]"
  by (simp add: accepted_dets_def buckets_car_box class_order_def)

lemma frame_total_car_box: "frame_total default_params 10000 [[car_box]] = 1"
  by (simp add: frame_total_accepted accepted_car_box)

section \<open>The density timeline and the confidence average\<close>

lemma ceiling_div_nat:
  assumes "0 < s"
  shows "nat \<lceil>real n / real s\<rceil> = (n + s - 1) div s"
proof (cases "n mod s = 0")
  case True
  then have "s dvd n" by (simp add: dvd_eq_mod_eq_0)
  then obtain k where k: "n = s * k" by (rule dvdE)
  have "real n / real s = real k" using assms k by simp
  then have "nat \<lceil>real n / real s\<rceil> = k" by simp
  moreover have "n div s = k" using assms k by simp
  ultimately show ?thesis using ceil_div_exact [OF assms True] by simp
next
  case False
  define q where "q = n div s"
  define r where "r = n mod s"
  have n: "n = q * s + r" by (simp add: q_def r_def)
  have r: "r < s" "0 < r" using assms False by (simp_all add: r_def)
  have "real n / real s = real q + real r / real s"
    using assms by (simp add: n field_simps)
  moreover have "0 < real r / real s" "real r / real s < 1" using r assms by simp_all
  ultimately have "\<lceil>real n / real s\<rceil> = int q + 1"
    by (intro ceiling_unique) simp_all
  then have "nat \<lceil>real n / real s\<rceil> = Suc q" by simp
  then show ?thesis using ceil_div_inexact [OF assms False] by (simp add: q_def)
qed

lemma sampled_indices:
  assumes "0 < se"
  shows "filter (\<lambda>i. int i mod se = 0) [0..<n] =
         map (\<lambda>k. k * nat se) [0..<nat \<lceil>real n / real_of_int se\<rceil>]"
proof -
  have s: "0 < nat se" and se: "se = int (nat se)" using assms by simp_all
  have "\<And>i. (int i mod se = 0) = (i mod nat se = 0)"
  proof -
    fix i
    have "int i mod se = int (i mod nat se)" by (subst se) (simp only: zmod_int)
    then show "(int i mod se = 0) = (i mod nat se = 0)" by simp
  qed
  then have "filter (\<lambda>i. int i mod se = 0) [0..<n] = filter (\<lambda>i. i mod nat se = 0) [0..<n]"
    by simp
  also have "\<dots> = map (\<lambda>k. k * nat se) [0..<(n + nat se - 1) div nat se]"
    using s by (rule multiples_below)
  also have "(n + nat se - 1) div nat se = nat \<lceil>real n / real (nat se)\<rceil>"
    using s by (simp only: ceiling_div_nat)
  also have "real (nat se) = real_of_int se" using assms by simp
  finally show ?thesis .
qed

lemma run_frames_series_sampled:
  assumes "0 < se"
  shows "density_series (run_frames P frame_area se init_state fs) =
     map (\<lambda>k. min 100 (real_of_int (frame_total P frame_area (fs ! (k * nat se)))
                  / real_of_int capacity * 100))
       [0..<nat \<lceil>real (length fs) / real_of_int se\<rceil>]"
  by (simp add: run_frames_series sampled_indices [OF assms] comp_def)

text \<open>
  Claim C5. With capture and writer open and \<open>N \<ge> 1\<close> frames, the run returns a record
  whose density timeline has \<open>ceil(N / sample_every)\<close> entries, where
  \<open>sample_every = max(1, fps // 5)\<close>; entry \<open>k\<close> is \<open>min(100, 100 * total / 45)\<close> for the
  accepted-detection total of frame \<open>k * sample_every\<close>, and lies between 0 and 100.
\<close>

theorem process_video_density_series:
  assumes "cap_opened V" and "out_opened V" and "frames V \<noteq> []"
  shows "\<exists>r. process_video P V = Inr r
           \<and> length (density_series_out r) =
               nat \<lceil>real (length (frames V)) / real_of_int (max 1 (fps V div 5))\<rceil>
           \<and> (\<forall>k < length (density_series_out r).
                 density_series_out r ! k =
                   min 100 (100 * real_of_int (frame_total P (width V * height V)
                              (frames V ! (k * nat (max 1 (fps V div 5))))) / 45)
                 \<and> 0 \<le> density_series_out r ! k \<and> density_series_out r ! k \<le> 100)"
proof -
  let ?se = "max 1 (fps V div 5)"
  let ?st = "run_frames P (width V * height V) ?se init_state (frames V)"
  let ?n = "nat \<lceil>real (length (frames V)) / real_of_int ?se\<rceil>"
  let ?g = "\<lambda>k. min 100 (real_of_int (frame_total P (width V * height V)
                  (frames V ! (k * nat ?se))) / real_of_int capacity * 100)"
  have se: "0 < ?se" by simp
  have c: "capacity = 45"
    by (simp add: capacity_def MAX_VEHICLES_PER_LANE_def NUM_LANES_def)
  have series: "density_series ?st = map ?g [0..<?n]"
    using se by (rule run_frames_series_sampled)
  have len: "length (density_series ?st) = ?n" by (simp only: series length_map length_upt)
  have entry: "density_series ?st ! k = ?g k" if "k < ?n" for k
    using that by (simp only: series) simp
  have range: "0 \<le> ?g k \<and> ?g k \<le> 100" for k
    using frame_total_nonneg [of P "width V * height V" "frames V ! (k * nat ?se)"]
    by (simp add: c)
  have out: "density_series_out
               (\<lparr>total_vehicles = a, density = b, vehicle_counts = cn,
                 density_series_out = density_series ?st, avg_confidence = e,
                 low_confidence = f\<rparr>) = density_series ?st" for a b cn e f
    by simp
  show ?thesis
    unfolding process_video_closed [OF assms] Let_def
    apply (intro exI conjI allI impI)
        apply (rule refl)
       apply (simp only: out len)
      apply (simp only: out len entry c)
      apply simp
     apply (simp only: out len entry range)
    apply (simp only: out len entry range)
    done
qed

theorem process_video_density_series_witness:
  "cap_opened scenario_A \<and> out_opened scenario_A \<and> frames scenario_A \<noteq> []
   \<and> (\<exists>r. process_video default_params scenario_A = Inr r
          \<and> length (density_series_out r) = 3
          \<and> density_series_out r ! 1 = 20 / 9
          \<and> 0 \<le> density_series_out r ! 1 \<and> density_series_out r ! 1 \<le> 100)"
proof -
  have h: "cap_opened scenario_A" "out_opened scenario_A" "frames scenario_A \<noteq> []"
    by (simp_all add: scenario_A_def)
  have n: "nat \<lceil>real (length (frames scenario_A))
             / real_of_int (max 1 (fps scenario_A div 5))\<rceil> = 3"
    by (simp add: scenario_A_def)
  have f: "frame_total default_params (width scenario_A * height scenario_A)
             (frames scenario_A ! (1 * nat (max 1 (fps scenario_A div 5)))) = 1"
    by (simp add: scenario_A_def frame_total_car_box)
  from process_video_density_series [OF h, of default_params]
  obtain r where r: "process_video default_params scenario_A = Inr r"
    and l: "length (density_series_out r) =
              nat \<lceil>real (length (frames scenario_A))
                     / real_of_int (max 1 (fps scenario_A div 5))\<rceil>"
    and e: "\<forall>k < length (density_series_out r).
              density_series_out r ! k =
                min 100 (100 * real_of_int (frame_total default_params
                    (width scenario_A * height scenario_A)
                    (frames scenario_A ! (k * nat (max 1 (fps scenario_A div 5))))) / 45)
              \<and> 0 \<le> density_series_out r ! k \<and> density_series_out r ! k \<le> 100"
    by blast
  from l n have l3: "length (density_series_out r) = 3" by simp
  then have "(1::nat) < length (density_series_out r)" by simp
  with e have e1: "density_series_out r ! 1 =
                min 100 (100 * real_of_int (frame_total default_params
                    (width scenario_A * height scenario_A)
                    (frames scenario_A ! (1 * nat (max 1 (fps scenario_A div 5))))) / 45)"
    and b1: "0 \<le> density_series_out r ! 1" "density_series_out r ! 1 \<le> 100"
    by blast+
  from e1 have "density_series_out r ! 1 = 20 / 9" by (simp only: f)
  with r l3 b1 h show ?thesis by blast
qed

text \<open>
  Claim C9. With capture and writer open and at least one frame, the run returns a
  record whose average confidence is the sum of the confidences of all accepted
  detections of all frames divided by their number, and 0 when there is none; its
  low-confidence flag is set exactly when that average is below 0.55.
\<close>

theorem process_video_confidence:
  assumes "cap_opened V" and "out_opened V" and "frames V \<noteq> []"
  shows "\<exists>r. process_video P V = Inr r
           \<and> avg_confidence r =
               (let acc = concat (map (accepted_dets P (width V * height V)) (frames V))
                in if acc = [] then 0 else sum_list (map snd acc) / real (length acc))
           \<and> low_confidence r = (avg_confidence r < 0.55)"
  unfolding process_video_closed [OF assms] Let_def
  by (simp add: run_frames_confidence)

theorem process_video_confidence_witness:
  "cap_opened scenario_A \<and> out_opened scenario_A \<and> frames scenario_A \<noteq> []
   \<and> (\<exists>r. process_video default_params scenario_A = Inr r
          \<and> avg_confidence r = 9 / 10 \<and> low_confidence r = False)"
proof -
  have h: "cap_opened scenario_A" "out_opened scenario_A" "frames scenario_A \<noteq> []"
    by (simp_all add: scenario_A_def)
  have a: "concat (map (accepted_dets default_params (width scenario_A * height scenario_A))
             (frames scenario_A)) =
           [((10, 20, 50, 60), 0.9), ((10, 20, 50, 60), 0.9), ((10, 20, 50, 60), 0.9),
            ((10, 20, 50, 60), 0.9), ((10, 20, 50, 60), 0.9)]"
    by (simp add: scenario_A_def accepted_car_box)
  from process_video_confidence [OF h, of default_params]
  obtain r where r: "process_video default_params scenario_A = Inr r"
    and avg: "avg_confidence r =
               (let acc = concat (map (accepted_dets default_params
                            (width scenario_A * height scenario_A)) (frames scenario_A))
                in if acc = [] then 0 else sum_list (map snd acc) / real (length acc))"
    and low: "low_confidence r = (avg_confidence r < 0.55)"
    by blast
  from avg have v: "avg_confidence r = 9 / 10" by (simp only: a Let_def) simp
  with low have "low_confidence r = False" by simp
  with r v h show ?thesis by blast
qed

section \<open>Properties of the matcher\<close>

lemma best_match_mono:
  "bi \<le> snd (best_match tb used ds j (bj, bi))"
proof (induction ds arbitrary: j bj bi)
  case Nil
  then show ?case by simp
next
  case (Cons d ds)
  obtain dbox dconf where d: "d = (dbox, dconf)" by (cases d)
  show ?case
    using Cons [of bi "Suc j" bj] Cons [of "compute_iou tb dbox" "Suc j" "Some j"]
    by (auto simp add: d Let_def)
qed

lemma best_match_upper:
  "i < length ds \<Longrightarrow> j + i \<notin> used \<Longrightarrow>
     compute_iou tb (fst (ds ! i)) \<le> snd (best_match tb used ds j (bj, bi))"
proof (induction ds arbitrary: i j bj bi)
  case Nil
  then show ?case by simp
next
  case (Cons d ds)
  obtain dbox dconf where d: "d = (dbox, dconf)" by (cases d)
  show ?case
  proof (cases i)
    case 0
    with Cons.prems have nu: "j \<notin> used" by simp
    show ?thesis
      using best_match_mono [of bi tb used ds "Suc j" bj]
        best_match_mono [of "compute_iou tb dbox" tb used ds "Suc j" "Some j"] nu
      by (auto simp add: d 0 Let_def)
  next
    case (Suc i')
    with Cons.prems have "i' < length ds" "Suc j + i' \<notin> used" by simp_all
    then show ?thesis
      using Cons.IH [of i' "Suc j"] by (auto simp add: d Suc Let_def)
  qed
qed

lemma best_match_form:
  assumes "best_match tb used ds j (bj, bi) = (rj, ri)"
  shows "(rj = bj \<and> ri = bi) \<or>
         (\<exists>i < length ds. rj = Some (j + i) \<and> j + i \<notin> used
            \<and> ri = compute_iou tb (fst (ds ! i)) \<and> bi < ri
            \<and> (\<forall>i' < i. j + i' \<notin> used \<longrightarrow> compute_iou tb (fst (ds ! i')) < ri))"
  using assms
proof (induction ds arbitrary: j bj bi)
  case Nil
  then show ?case by simp
next
  case (Cons d ds)
  obtain dbox dconf where d: "d = (dbox, dconf)" by (cases d)
  let ?iou = "compute_iou tb dbox"
  let ?new = "\<lambda>b. \<exists>i < length ds. rj = Some (Suc j + i) \<and> Suc j + i \<notin> used
            \<and> ri = compute_iou tb (fst (ds ! i)) \<and> b < ri
            \<and> (\<forall>i' < i. Suc j + i' \<notin> used \<longrightarrow> compute_iou tb (fst (ds ! i')) < ri)"
  have shift: "?case" if new: "?new b" and b: "bi \<le> b" and z: "j \<in> used \<or> ?iou \<le> b" for b
  proof -
    from new obtain i where i: "i < length ds" "rj = Some (Suc j + i)" "Suc j + i \<notin> used"
      "ri = compute_iou tb (fst (ds ! i))" "b < ri"
      "\<forall>i' < i. Suc j + i' \<notin> used \<longrightarrow> compute_iou tb (fst (ds ! i')) < ri"
      by blast
    have "\<forall>i' < Suc i. j + i' \<notin> used \<longrightarrow> compute_iou tb (fst ((d # ds) ! i')) < ri"
    proof (intro allI impI)
      fix i' assume a: "i' < Suc i" "j + i' \<notin> used"
      show "compute_iou tb (fst ((d # ds) ! i')) < ri"
      proof (cases i')
        case 0
        with a z have "?iou \<le> b" by simp
        with i(5) show ?thesis by (simp add: 0 d)
      next
        case (Suc k)
        with a i(6) show ?thesis by simp
      qed
    qed
    then have "Suc i < length (d # ds) \<and> (rj = Some (j + Suc i) \<and> j + Suc i \<notin> used
            \<and> ri = compute_iou tb (fst ((d # ds) ! Suc i)) \<and> bi < ri
            \<and> (\<forall>i' < Suc i. j + i' \<notin> used
                  \<longrightarrow> compute_iou tb (fst ((d # ds) ! i')) < ri))"
      using i(1-5) b by simp
    then have "\<exists>i < length (d # ds). rj = Some (j + i) \<and> j + i \<notin> used
            \<and> ri = compute_iou tb (fst ((d # ds) ! i)) \<and> bi < ri
            \<and> (\<forall>i' < i. j + i' \<notin> used
                  \<longrightarrow> compute_iou tb (fst ((d # ds) ! i')) < ri)"
      by (rule exI [of _ "Suc i"])
    then show ?thesis by (rule disjI2)
  qed
  show ?case
  proof (cases "j \<in> used")
    case True
    with Cons.prems have "best_match tb used ds (Suc j) (bj, bi) = (rj, ri)" by (simp add: d)
    from Cons.IH [OF this] have "(rj = bj \<and> ri = bi) \<or> ?new bi" .
    then show ?thesis
    proof
      assume "rj = bj \<and> ri = bi"
      then show ?thesis by (rule disjI1)
    next
      assume "?new bi"
      moreover have "bi \<le> bi" by simp
      moreover have "j \<in> used \<or> ?iou \<le> bi" using True by simp
      ultimately show ?thesis by (rule shift)
    qed
  next
    case False
    show ?thesis
    proof (cases "?iou > bi")
      case True
      with Cons.prems False
      have "best_match tb used ds (Suc j) (Some j, ?iou) = (rj, ri)" by (simp add: d Let_def)
      from Cons.IH [OF this] have "(rj = Some j \<and> ri = ?iou) \<or> ?new ?iou" .
      then show ?thesis
      proof
        assume "rj = Some j \<and> ri = ?iou"
        then have "0 < length (d # ds) \<and> rj = Some (j + 0) \<and> j + 0 \<notin> used
            \<and> ri = compute_iou tb (fst ((d # ds) ! 0)) \<and> bi < ri
            \<and> (\<forall>i' < 0. j + i' \<notin> used \<longrightarrow> compute_iou tb (fst ((d # ds) ! i')) < ri)"
          using True False by (simp add: d)
        then have "\<exists>i < length (d # ds). rj = Some (j + i) \<and> j + i \<notin> used
            \<and> ri = compute_iou tb (fst ((d # ds) ! i)) \<and> bi < ri
            \<and> (\<forall>i' < i. j + i' \<notin> used
                  \<longrightarrow> compute_iou tb (fst ((d # ds) ! i')) < ri)"
          by (rule exI [of _ 0])
        then show ?thesis by (rule disjI2)
      next
        assume "?new ?iou"
        moreover have "bi \<le> ?iou" using True by simp
        moreover have "j \<in> used \<or> ?iou \<le> ?iou" by simp
        ultimately show ?thesis by (rule shift)
      qed
    next
      case nb: False
      with Cons.prems False
      have "best_match tb used ds (Suc j) (bj, bi) = (rj, ri)" by (simp add: d Let_def)
      from Cons.IH [OF this] have "(rj = bj \<and> ri = bi) \<or> ?new bi" .
      then show ?thesis
      proof
        assume "rj = bj \<and> ri = bi"
        then show ?thesis by (rule disjI1)
      next
        assume "?new bi"
        moreover have "bi \<le> bi" by simp
        moreover have "j \<in> used \<or> ?iou \<le> bi" using nb by simp
        ultimately show ?thesis by (rule shift)
      qed
    qed
  qed
qed

lemma best_match_Some:
  assumes "best_match tb used dets 0 (None, 0) = (Some k, v)"
  shows "first_best tb used dets k \<and> v = iou_at tb dets k \<and> 0 < v"
proof -
  from best_match_form [OF assms]
  obtain i where i: "i < length dets" "Some k = Some (0 + i)" "0 + i \<notin> used"
      "v = compute_iou tb (fst (dets ! i))" "0 < v"
      "\<forall>i' < i. 0 + i' \<notin> used \<longrightarrow> compute_iou tb (fst (dets ! i')) < v"
    by auto
  have up: "\<forall>k' < length dets. k' \<notin> used \<longrightarrow> compute_iou tb (fst (dets ! k')) \<le> v"
    using best_match_upper [of _ dets 0 used tb None 0] assms by simp
  from i have ki: "k = i" by simp
  show ?thesis
    using i(1,3,4,5,6) up unfolding ki first_best_def iou_at_def by simp
qed

lemma best_match_None:
  assumes "best_match tb used dets 0 (None, 0) = (None, v)"
  shows "v = 0 \<and> (\<forall>k < length dets. k \<notin> used \<longrightarrow> iou_at tb dets k = 0)"
proof -
  from best_match_form [OF assms] have v: "v = 0" by auto
  have "\<forall>k < length dets. k \<notin> used \<longrightarrow> compute_iou tb (fst (dets ! k)) \<le> 0"
    using best_match_upper [of _ dets 0 used tb None 0] assms v by simp
  with v show ?thesis
    using compute_iou_range unfolding iou_at_def by (metis order_antisym)
qed

lemma match_track_cases:
  assumes "match_track thr f dets t (used, uc) = (t', used', uc')"
  shows "(\<exists>k. first_best (bbox t) used dets k
            \<and> 0 < iou_at (bbox t) dets k \<and> thr \<le> iou_at (bbox t) dets k
            \<and> used' = insert k used
            \<and> t' = t\<lparr>bbox := fst (dets ! k), last_seen := f, hits := hits t + 1,
                     counted := (counted t \<or> CONFIRM_HITS \<le> hits t + 1)\<rparr>
            \<and> uc' = (if \<not> counted t \<and> CONFIRM_HITS \<le> hits t + 1 then uc + 1 else uc))
         \<or> (t' = t \<and> used' = used \<and> uc' = uc
            \<and> (\<forall>k < length dets. k \<notin> used \<longrightarrow>
                  \<not> (0 < iou_at (bbox t) dets k \<and> thr \<le> iou_at (bbox t) dets k)))"
proof -
  obtain rj ri where bm: "best_match (bbox t) used dets 0 (None, 0) = (rj, ri)"
    by (cases "best_match (bbox t) used dets 0 (None, 0)")
  show ?thesis
  proof (cases rj)
    case None
    with bm best_match_None [of "bbox t" used dets ri]
    have "\<forall>k < length dets. k \<notin> used \<longrightarrow> iou_at (bbox t) dets k = 0" by simp
    moreover have "t' = t \<and> used' = used \<and> uc' = uc"
      using assms bm None by (simp add: match_track_def)
    ultimately show ?thesis by simp
  next
    case (Some k)
    with bm best_match_Some [of "bbox t" used dets k ri]
    have fb: "first_best (bbox t) used dets k" and ri: "ri = iou_at (bbox t) dets k"
      and pos: "0 < ri" by simp_all
    show ?thesis
    proof (cases "thr \<le> ri")
      case True
      have "used' = insert k used
            \<and> t' = t\<lparr>bbox := fst (dets ! k), last_seen := f, hits := hits t + 1,
                     counted := (counted t \<or> CONFIRM_HITS \<le> hits t + 1)\<rparr>
            \<and> uc' = (if \<not> counted t \<and> CONFIRM_HITS \<le> hits t + 1 then uc + 1 else uc)"
        using assms bm Some True by (auto simp add: match_track_def Let_def)
      with fb pos True show ?thesis unfolding ri by blast
    next
      case False
      have same: "t' = t \<and> used' = used \<and> uc' = uc"
        using assms bm Some False by (simp add: match_track_def)
      have "\<forall>k' < length dets. k' \<notin> used \<longrightarrow> iou_at (bbox t) dets k' < thr"
        using fb False unfolding ri first_best_def by force
      with same show ?thesis by force
    qed
  qed
qed

lemma match_tracks_Cons:
  "match_tracks thr f dets (t # ts) s =
     (fst (match_track thr f dets t s)
        # fst (match_tracks thr f dets ts (snd (match_track thr f dets t s))),
      snd (match_tracks thr f dets ts (snd (match_track thr f dets t s))))"
  by (simp split: prod.splits)

lemma match_tracks_length:
  "length (fst (match_tracks thr f dets ts s)) = length ts"
  by (induction ts arbitrary: s) (simp_all add: match_tracks_Cons del: match_tracks.simps(2))

lemma match_tracks_step:
  "i < length ts \<Longrightarrow>
     match_track thr f dets (ts ! i) (snd (match_tracks thr f dets (take i ts) s)) =
       (fst (match_tracks thr f dets ts s) ! i,
        snd (match_tracks thr f dets (take (Suc i) ts) s))"
proof (induction ts arbitrary: s i)
  case Nil
  then show ?case by simp
next
  case (Cons t ts)
  show ?case
  proof (cases i)
    case 0
    then show ?thesis by (simp add: match_tracks_Cons del: match_tracks.simps(2))
  next
    case (Suc i')
    with Cons.prems have "i' < length ts" by simp
    from Cons.IH [OF this, of "snd (match_track thr f dets t s)"] show ?thesis
      using Suc by (simp add: match_tracks_Cons del: match_tracks.simps(2))
  qed
qed

lemma match_track_used:
  assumes "match_track thr f dets t (used, uc) = (t', used', uc')"
  shows "(t' = t \<and> used' = used)
         \<or> (\<exists>k. k < length dets \<and> k \<notin> used \<and> used' = insert k used \<and> last_seen t' = f)"
  using match_track_cases [OF assms] unfolding first_best_def by auto

lemma match_tracks_snoc:
  "snd (match_tracks thr f dets (xs @ ys) s) =
     snd (match_tracks thr f dets ys (snd (match_tracks thr f dets xs s)))"
  by (induction xs arbitrary: s) (simp_all add: match_tracks_Cons del: match_tracks.simps(2))

lemma match_tracks_used_bounds:
  "fst s \<subseteq> fst (snd (match_tracks thr f dets ts s))
   \<and> fst (snd (match_tracks thr f dets ts s)) \<subseteq> fst s \<union> {..<length dets}"
proof (induction ts arbitrary: s)
  case Nil
  then show ?case by simp
next
  case (Cons t ts)
  obtain used uc where s: "s = (used, uc)" by (cases s)
  obtain t' used' uc' where m: "match_track thr f dets t (used, uc) = (t', used', uc')"
    by (cases "match_track thr f dets t (used, uc)")
  from match_track_used [OF m]
  have "used \<subseteq> used' \<and> used' \<subseteq> used \<union> {..<length dets}" by auto
  with Cons [of "(used', uc')"] show ?case
    by (auto simp add: match_tracks_Cons s m simp del: match_tracks.simps(2))
qed

lemma match_tracks_used_take:
  "fst (snd (match_tracks thr f dets (take i ts) s))
     \<subseteq> fst (snd (match_tracks thr f dets ts s))"
proof -
  have "snd (match_tracks thr f dets (take i ts @ drop i ts) s) =
        snd (match_tracks thr f dets (drop i ts) (snd (match_tracks thr f dets (take i ts) s)))"
    by (rule match_tracks_snoc)
  then show ?thesis
    using match_tracks_used_bounds
      [of "snd (match_tracks thr f dets (take i ts) s)" thr f dets "drop i ts"]
    by simp
qed

lemma match_tracks_seen_count:
  assumes "finite used" and "\<forall>t\<in>set ts. last_seen t < f"
  shows "length (filter (\<lambda>t. last_seen t = f) (fst (match_tracks thr f dets ts (used, uc)))) =
         card (fst (snd (match_tracks thr f dets ts (used, uc))) - used)"
  using assms
proof (induction ts arbitrary: used uc)
  case Nil
  then show ?case by simp
next
  case (Cons t ts)
  obtain t' used' uc' where m: "match_track thr f dets t (used, uc) = (t', used', uc')"
    by (cases "match_track thr f dets t (used, uc)")
  let ?fin = "fst (snd (match_tracks thr f dets ts (used', uc')))"
  have old: "\<forall>t\<in>set ts. last_seen t < f" and t: "last_seen t < f" using Cons.prems by simp_all
  have bounds: "used' \<subseteq> ?fin" "?fin \<subseteq> used' \<union> {..<length dets}"
    using match_tracks_used_bounds [of "(used', uc')" thr f dets ts] by simp_all
  from match_track_used [OF m] show ?case
  proof
    assume same: "t' = t \<and> used' = used"
    with Cons.IH [OF Cons.prems(1) old, of uc'] t show ?thesis
      by (simp add: match_tracks_Cons m del: match_tracks.simps(2))
  next
    assume "\<exists>k. k < length dets \<and> k \<notin> used \<and> used' = insert k used \<and> last_seen t' = f"
    then obtain k where k: "k \<notin> used" "used' = insert k used" "last_seen t' = f" by blast
    have fin': "finite used'" using Cons.prems(1) k by simp
    have "finite (used' \<union> {..<length dets})" using fin' by simp
    with bounds(2) have finf: "finite ?fin" by (rule finite_subset)
    have "?fin - used = insert k (?fin - used')" using k bounds(1) by auto
    moreover have "k \<notin> ?fin - used'" using k by simp
    ultimately have "card (?fin - used) = Suc (card (?fin - used'))"
      using finf by simp
    with Cons.IH [OF fin' old, of uc'] k(3) show ?thesis
      by (simp add: match_tracks_Cons m del: match_tracks.simps(2))
  qed
qed

lemma match_tracks_greedy:
  assumes "match_tracks thr f dets ts (used, uc) = (ts', used', uc')"
    and "finite used" and "\<forall>t\<in>set ts. last_seen t < f"
  shows "length ts' = length ts
     \<and> (\<forall>i < length ts.
          (case snd (match_tracks thr f dets (take i ts) (used, uc)) of (U, c) \<Rightarrow>
           case snd (match_tracks thr f dets (take (Suc i) ts) (used, uc)) of (U', c') \<Rightarrow>
             used \<subseteq> U \<and> U' \<subseteq> used'
             \<and> ((\<exists>k. first_best (bbox (ts ! i)) U dets k
                    \<and> thr \<le> iou_at (bbox (ts ! i)) dets k
                    \<and> U' = insert k U
                    \<and> bbox (ts' ! i) = fst (dets ! k) \<and> last_seen (ts' ! i) = f
                    \<and> hits (ts' ! i) = hits (ts ! i) + 1
                    \<and> track_id (ts' ! i) = track_id (ts ! i))
                \<or> (ts' ! i = ts ! i \<and> U' = U
                    \<and> (\<forall>k < length dets. k \<notin> U \<longrightarrow>
                          \<not> (0 < iou_at (bbox (ts ! i)) dets k
                             \<and> thr \<le> iou_at (bbox (ts ! i)) dets k))))))
     \<and> length (filter (\<lambda>t. last_seen t = f) ts') = card (used' - used)"
proof (intro conjI allI impI)
  show "length ts' = length ts"
    using match_tracks_length [of thr f dets ts "(used, uc)"] assms(1) by simp
  show "length (filter (\<lambda>t. last_seen t = f) ts') = card (used' - used)"
    using match_tracks_seen_count [OF assms(2,3), of thr dets uc] assms(1) by simp
  fix i assume i: "i < length ts"
  obtain U c where U: "snd (match_tracks thr f dets (take i ts) (used, uc)) = (U, c)"
    by (cases "snd (match_tracks thr f dets (take i ts) (used, uc))")
  obtain U' c' where U': "snd (match_tracks thr f dets (take (Suc i) ts) (used, uc)) = (U', c')"
    by (cases "snd (match_tracks thr f dets (take (Suc i) ts) (used, uc))")
  have step: "match_track thr f dets (ts ! i) (U, c) = (ts' ! i, U', c')"
    using match_tracks_step [OF i, of thr f dets "(used, uc)"] assms(1) U U' by simp
  have lo: "used \<subseteq> U"
    using match_tracks_used_bounds [of "(used, uc)" thr f dets "take i ts"] U by simp
  have hi: "U' \<subseteq> used'"
    using match_tracks_used_take [of thr f dets "Suc i" ts "(used, uc)"] U' assms(1) by simp
  from match_track_cases [OF step]
  have "(\<exists>k. first_best (bbox (ts ! i)) U dets k
            \<and> thr \<le> iou_at (bbox (ts ! i)) dets k
            \<and> U' = insert k U
            \<and> bbox (ts' ! i) = fst (dets ! k) \<and> last_seen (ts' ! i) = f
            \<and> hits (ts' ! i) = hits (ts ! i) + 1
            \<and> track_id (ts' ! i) = track_id (ts ! i))
        \<or> (ts' ! i = ts ! i \<and> U' = U
            \<and> (\<forall>k < length dets. k \<notin> U \<longrightarrow>
                  \<not> (0 < iou_at (bbox (ts ! i)) dets k
                     \<and> thr \<le> iou_at (bbox (ts ! i)) dets k)))"
  proof (elim disjE exE conjE)
    fix k
    assume "first_best (bbox (ts ! i)) U dets k" "thr \<le> iou_at (bbox (ts ! i)) dets k"
      "U' = insert k U"
      "ts' ! i = (ts ! i)\<lparr>bbox := fst (dets ! k), last_seen := f, hits := hits (ts ! i) + 1,
                     counted := (counted (ts ! i) \<or> CONFIRM_HITS \<le> hits (ts ! i) + 1)\<rparr>"
    then have "first_best (bbox (ts ! i)) U dets k
            \<and> thr \<le> iou_at (bbox (ts ! i)) dets k
            \<and> U' = insert k U
            \<and> bbox (ts' ! i) = fst (dets ! k) \<and> last_seen (ts' ! i) = f
            \<and> hits (ts' ! i) = hits (ts ! i) + 1
            \<and> track_id (ts' ! i) = track_id (ts ! i)"
      by simp
    then show ?thesis by blast
  next
    assume "ts' ! i = ts ! i" "U' = U"
      "\<forall>k < length dets. k \<notin> U \<longrightarrow>
          \<not> (0 < iou_at (bbox (ts ! i)) dets k \<and> thr \<le> iou_at (bbox (ts ! i)) dets k)"
    then show ?thesis by blast
  qed
  with lo hi show "case snd (match_tracks thr f dets (take i ts) (used, uc)) of (U, c) \<Rightarrow>
           case snd (match_tracks thr f dets (take (Suc i) ts) (used, uc)) of (U', c') \<Rightarrow>
             used \<subseteq> U \<and> U' \<subseteq> used'
             \<and> ((\<exists>k. first_best (bbox (ts ! i)) U dets k
                    \<and> thr \<le> iou_at (bbox (ts ! i)) dets k
                    \<and> U' = insert k U
                    \<and> bbox (ts' ! i) = fst (dets ! k) \<and> last_seen (ts' ! i) = f
                    \<and> hits (ts' ! i) = hits (ts ! i) + 1
                    \<and> track_id (ts' ! i) = track_id (ts ! i))
                \<or> (ts' ! i = ts ! i \<and> U' = U
                    \<and> (\<forall>k < length dets. k \<notin> U \<longrightarrow>
                          \<not> (0 < iou_at (bbox (ts ! i)) dets k
                             \<and> thr \<le> iou_at (bbox (ts ! i)) dets k))))"
    unfolding U U' by simp
qed

lemmas matcher_eval = match_track_def CONFIRM_HITS_def Let_def track_a_def track_b_def dets_w_def

lemma match_tracks_concrete:
  "match_tracks 0.3 5 dets_w [track_a, track_b] ({}, 0) =
     ([\<lparr>track_id = 1, bbox = (10, 20, 50, 60), last_seen = 5, hits = 3, counted = True\<rparr>,
       \<lparr>track_id = 2, bbox = (10, 20, 50, 60), last_seen = 5, hits = 6, counted = True\<rparr>],
      {Suc 0, 2}, 1)"
  by (simp add: matcher_eval numeral_2_eq_2 insert_commute)

section \<open>Properties of the track store\<close>

lemma match_track_count:
  assumes ok: "track_ok t"
    and m: "match_track thr f dets t (used, uc) = (t', used', uc')"
  shows "track_ok t'"
    and "uc' = uc \<or> uc' = uc + 1"
    and "uc' = uc + 1 \<longleftrightarrow> \<not> counted t \<and> hits t' = CONFIRM_HITS"
    and "uc' = uc + 1 \<longleftrightarrow> \<not> counted t \<and> counted t'"
    and "uc' = uc + 1 \<longrightarrow> hits t = CONFIRM_HITS - 1"
    and "counted t \<longrightarrow> counted t' \<and> uc' = uc"
    and "track_id t' = track_id t"
    and "last_seen t' = last_seen t \<or> last_seen t' = f"
  using match_track_cases [OF m] ok
  by (auto simp add: track_ok_def CONFIRM_HITS_def split: if_splits)

lemma match_tracks_ids:
  "map track_id (fst (match_tracks thr f dets ts s)) = map track_id ts"
proof (induction ts arbitrary: s)
  case Nil
  then show ?case by simp
next
  case (Cons t ts)
  obtain used uc where s: "s = (used, uc)" by (cases s)
  obtain t' used' uc' where m: "match_track thr f dets t (used, uc) = (t', used', uc')"
    by (cases "match_track thr f dets t (used, uc)")
  have "track_id t' = track_id t" using match_track_cases [OF m] by auto
  then show ?case
    using Cons by (simp add: match_tracks_Cons s m del: match_tracks.simps(2))
qed

lemma match_tracks_ok:
  assumes "list_all (\<lambda>t. track_ok t \<and> last_seen t < f) ts"
  shows "list_all (\<lambda>t. track_ok t \<and> last_seen t \<le> f)
           (fst (match_tracks thr f dets ts (used, uc)))"
  using assms
proof (induction ts arbitrary: used uc)
  case Nil
  then show ?case by simp
next
  case (Cons t ts)
  obtain t' used' uc' where m: "match_track thr f dets t (used, uc) = (t', used', uc')"
    by (cases "match_track thr f dets t (used, uc)")
  from Cons.prems have ok: "track_ok t" and seen: "last_seen t < f"
    and rest: "list_all (\<lambda>t. track_ok t \<and> last_seen t < f) ts" by simp_all
  have "track_ok t'" using ok m by (rule match_track_count(1))
  moreover have "last_seen t' \<le> f" using match_track_count(8) [OF ok m] seen by auto
  ultimately show ?case
    using Cons.IH [OF rest, where used = used' and uc = uc']
    by (simp add: match_tracks_Cons m del: match_tracks.simps(2))
qed

lemma match_tracks_count:
  assumes "list_all track_ok ts"
  shows "snd (snd (match_tracks thr f dets ts (used, uc))) =
           uc + int (length (filter counted (fst (match_tracks thr f dets ts (used, uc)))))
              - int (length (filter counted ts))"
  using assms
proof (induction ts arbitrary: used uc)
  case Nil
  then show ?case by simp
next
  case (Cons t ts)
  obtain t' used' uc' where m: "match_track thr f dets t (used, uc) = (t', used', uc')"
    by (cases "match_track thr f dets t (used, uc)")
  from Cons.prems have ok: "track_ok t" and rest: "list_all track_ok ts" by simp_all
  have "uc' = uc + (if counted t' then 1 else 0) - (if counted t then 1 else 0)"
    using match_track_count(2,4,6) [OF ok m] by auto
  then show ?case
    using Cons.IH [OF rest, where used = used' and uc = uc']
    by (simp add: match_tracks_Cons m del: match_tracks.simps(2))
qed

lemma match_tracks_uc_mono:
  "uc \<le> snd (snd (match_tracks thr f dets ts (used, uc)))"
proof (induction ts arbitrary: used uc)
  case Nil
  then show ?case by simp
next
  case (Cons t ts)
  obtain t' used' uc' where m: "match_track thr f dets t (used, uc) = (t', used', uc')"
    by (cases "match_track thr f dets t (used, uc)")
  have "uc \<le> uc'" using match_track_cases [OF m] by auto
  then show ?case
    using Cons [where used = used' and uc = uc']
    by (simp add: match_tracks_Cons m del: match_tracks.simps(2))
qed

lemma create_tracks_closed:
  "create_tracks f used ds j (ts, nid) =
     (ts @ new_tracks f nid (unmatched used ds j), nid + int (length (unmatched used ds j)))"
proof (induction ds arbitrary: j ts nid)
  case Nil
  then show ?case by (simp add: unmatched_def)
next
  case (Cons d ds)
  obtain dbox dconf where d: "d = (dbox, dconf)" by (cases d)
  show ?case
    using Cons [of "Suc j" ts nid]
      Cons [of "Suc j" "ts @ [\<lparr>track_id = nid, bbox = dbox, last_seen = f, hits = 1,
                     counted = False\<rparr>]" "nid + 1"]
    by (simp add: d unmatched_def)
qed

lemma new_tracks_length: "length (new_tracks f nid ds) = length ds"
  by (induction ds arbitrary: nid) simp_all

lemma new_tracks_ids: "map track_id (new_tracks f nid ds) = map (\<lambda>i. nid + int i) [0..<length ds]"
proof (induction ds arbitrary: nid)
  case Nil
  then show ?case by simp
next
  case (Cons d ds)
  have "[0..<Suc (length ds)] = 0 # map Suc [0..<length ds]"
    by (simp add: upt_conv_Cons map_Suc_upt del: upt_Suc)
  then show ?case using Cons [of "nid + 1"] by (simp add: comp_def algebra_simps del: upt_Suc)
qed

lemma new_tracks_fields:
  "u \<in> set (new_tracks f nid ds) \<Longrightarrow>
     hits u = 1 \<and> \<not> counted u \<and> last_seen u = f \<and> nid \<le> track_id u
     \<and> track_id u < nid + int (length ds) \<and> bbox u \<in> fst ` set ds"
  by (induction ds arbitrary: nid) (auto, force+)


lemma track_class_closed:
  "track_class thr f dets (ts, nid, uc) =
     (let m = match_tracks thr f dets (fresh_tracks f ts) ({}, uc);
          um = unmatched (fst (snd m)) dets 0
      in (fst m @ new_tracks f nid um, nid + int (length um), snd (snd m)))"
  by (simp add: track_class_def create_tracks_closed Let_def split: prod.splits)

lemma uncounted_new_tracks: "filter (\<lambda>t. \<not> counted t) (new_tracks f nid ds) = new_tracks f nid ds"
  by (induction ds arbitrary: nid) simp_all

lemma counted_new_tracks: "filter counted (new_tracks f nid ds) = []"
  by (induction ds arbitrary: nid) simp_all

lemma class_inv_step:
  assumes inv: "class_inv f s"
  shows "class_inv (f + 1) (track_class thr f dets s)"
proof -
  obtain ts nid uc where s: "s = (ts, nid, uc)" by (cases s)
  let ?fr = "fresh_tracks f ts"
  let ?m = "match_tracks thr f dets ?fr ({}, uc)"
  let ?ts1 = "fst ?m"
  let ?uc1 = "snd (snd ?m)"
  let ?um = "unmatched (fst (snd ?m)) dets 0"
  let ?new = "new_tracks f nid ?um"
  let ?nid2 = "nid + int (length ?um)"
  from inv s have all: "list_all (\<lambda>t. track_ok t \<and> last_seen t < f \<and> 1 \<le> track_id t
                           \<and> track_id t < nid) ts"
    and dist: "distinct (map track_id ts)" and uc0: "0 \<le> uc"
    and cnt: "uc + int (length (filter (\<lambda>t. \<not> counted t) ts)) \<le> nid - 1"
    by (simp_all add: class_inv_def)
  have fr_sub: "set ?fr \<subseteq> set ts" by (auto simp add: fresh_tracks_def)
  have fr_all: "list_all (\<lambda>t. track_ok t \<and> last_seen t < f) ?fr"
    and fr_ok: "list_all track_ok ?fr"
    and fr_ids: "\<forall>i \<in> set (map track_id ?fr). 1 \<le> i \<and> i < nid"
    using all fr_sub by (auto simp add: list_all_iff)
  have fr_dist: "distinct (map track_id ?fr)"
    using dist unfolding fresh_tracks_def by (rule distinct_map_filter)
  have ids1: "map track_id ?ts1 = map track_id ?fr" by (rule match_tracks_ids)
  have len1: "length ?ts1 = length ?fr" by (rule match_tracks_length)
  have ok1: "list_all (\<lambda>t. track_ok t \<and> last_seen t \<le> f) ?ts1"
    using fr_all by (rule match_tracks_ok)
  have nid1: "1 \<le> nid" using uc0 cnt by simp
  have a1: "list_all (\<lambda>t. track_ok t \<and> last_seen t < f + 1 \<and> 1 \<le> track_id t
                           \<and> track_id t < ?nid2) ?ts1"
  proof -
    have "\<forall>t \<in> set ?ts1. 1 \<le> track_id t \<and> track_id t < nid"
    proof
      fix t assume "t \<in> set ?ts1"
      then have "track_id t \<in> set (map track_id ?ts1)" by simp
      then have "track_id t \<in> set (map track_id ?fr)" by (simp only: ids1)
      with fr_ids show "1 \<le> track_id t \<and> track_id t < nid" by blast
    qed
    with ok1 show ?thesis by (auto simp add: list_all_iff)
  qed
  have a2: "list_all (\<lambda>t. track_ok t \<and> last_seen t < f + 1 \<and> 1 \<le> track_id t
                           \<and> track_id t < ?nid2) ?new"
  proof -
    have "track_ok t \<and> last_seen t < f + 1 \<and> 1 \<le> track_id t \<and> track_id t < ?nid2"
      if "t \<in> set ?new" for t
      using new_tracks_fields [OF that] nid1 by (simp add: track_ok_def CONFIRM_HITS_def)
    then show ?thesis by (simp add: list_all_iff)
  qed
  have d2: "distinct (map track_id (?ts1 @ ?new))"
  proof -
    have "distinct (map track_id ?new)"
      by (simp add: new_tracks_ids distinct_map inj_on_def)
    moreover have "set (map track_id ?ts1) \<inter> set (map track_id ?new) = {}"
    proof -
      have "\<forall>i \<in> set (map track_id ?new). nid \<le> i" by (auto simp add: new_tracks_ids)
      moreover have "\<forall>i \<in> set (map track_id ?ts1). i < nid"
        using fr_ids by (simp only: ids1) blast
      ultimately show ?thesis by fastforce
    qed
    ultimately show ?thesis using fr_dist by (simp add: ids1)
  qed
  have mono: "uc \<le> ?uc1" by (rule match_tracks_uc_mono)
  have c2: "?uc1 + int (length (filter (\<lambda>t. \<not> counted t) (?ts1 @ ?new))) \<le> ?nid2 - 1"
  proof -
    have "?uc1 = uc + int (length (filter counted ?ts1)) - int (length (filter counted ?fr))"
      using fr_ok by (rule match_tracks_count)
    moreover have "length (filter counted ?ts1) + length (filter (\<lambda>t. \<not> counted t) ?ts1)
                     = length ?ts1"
      by (rule sum_length_filter_compl)
    moreover have "length (filter counted ?fr) + length (filter (\<lambda>t. \<not> counted t) ?fr)
                     = length ?fr"
      by (rule sum_length_filter_compl)
    ultimately have "?uc1 + int (length (filter (\<lambda>t. \<not> counted t) ?ts1))
                       = uc + int (length (filter (\<lambda>t. \<not> counted t) ?fr))"
      using len1 by linarith
    moreover have "length (filter (\<lambda>t. \<not> counted t) ?fr)
                     \<le> length (filter (\<lambda>t. \<not> counted t) ts)"
    proof -
      have "filter (\<lambda>t. \<not> counted t) ?fr =
            filter (\<lambda>t. f - last_seen t \<le> TRACK_TIMEOUT) (filter (\<lambda>t. \<not> counted t) ts)"
        by (auto simp add: fresh_tracks_def intro: filter_cong)
      then show ?thesis by (simp only: length_filter_le)
    qed
    ultimately show ?thesis
      using cnt by (simp add: uncounted_new_tracks new_tracks_length)
  qed
  show ?thesis
    unfolding s track_class_closed Let_def class_inv_def
    using a1 a2 d2 c2 mono uc0 by simp
qed

lemma class_inv_idle: "class_inv f s \<Longrightarrow> class_inv (f + 1) s"
  by (cases s) (auto simp add: class_inv_def list_all_iff)

section \<open>The track store along a run\<close>

lemma class_body_state:
  "class_state (class_body P dbc st v) w =
     (if w = v then track_class (iou_thresh P) (frame_idx st) (dbc v) (class_state st v)
      else class_state st w)"
  by (simp add: class_body_def class_state_def Let_def split: prod.splits)

lemma class_loop_state:
  "class_state (foldl (class_body P dbc) st class_order) v =
     track_class (iou_thresh P) (frame_idx st) (dbc v) (class_state st v)"
  by (cases v) (simp_all add: class_order_def class_body_state class_body_aggregates(1))

lemma class_state_ignores:
  "class_state (st\<lparr>total_this_frame := a\<rparr>) v = class_state st v"
  "class_state (st\<lparr>max_total_concurrent := b\<rparr>) v = class_state st v"
  "class_state (st\<lparr>density_series := c\<rparr>) v = class_state st v"
  "class_state (st\<lparr>frame_count := d\<rparr>) v = class_state st v"
  "class_state (st\<lparr>frame_idx := e\<rparr>) v = class_state st v"
  by (simp_all add: class_state_def)

lemma process_frame_state:
  "class_state (process_frame P frame_area sample_every st results) v =
     (case results of
        [] \<Rightarrow> class_state st v
      | r # _ \<Rightarrow> track_class (iou_thresh P) (frame_idx st)
                   (detections_by_class P frame_area r v) (class_state st v))"
proof (cases results)
  case Nil
  then show ?thesis by (simp add: process_frame_def Let_def class_state_ignores)
next
  case (Cons r rs)
  have "class_state (foldl (class_body P (detections_by_class P frame_area r))
           (st\<lparr>total_this_frame := 0\<rparr>) class_order) v =
        track_class (iou_thresh P) (frame_idx st)
           (detections_by_class P frame_area r v) (class_state st v)"
    by (simp add: class_loop_state class_state_ignores)
  then show ?thesis
    by (simp add: Cons process_frame_def Let_def class_state_ignores)
qed

lemma state_inv_all:
  "state_inv st \<longleftrightarrow> (\<forall>v. class_inv (frame_idx st) (class_state st v))"
proof
  assume a: "state_inv st"
  show "\<forall>v. class_inv (frame_idx st) (class_state st v)"
  proof
    fix v
    have "v \<in> set class_order" by (cases v) (simp_all add: class_order_def)
    with a show "class_inv (frame_idx st) (class_state st v)"
      by (simp add: state_inv_def list_all_iff)
  qed
next
  assume "\<forall>v. class_inv (frame_idx st) (class_state st v)"
  then show "state_inv st" by (simp add: state_inv_def list_all_iff)
qed

lemma init_state_inv: "state_inv init_state"
  by (simp add: state_inv_all class_inv_def class_state_def init_state_def)

lemma process_frame_inv:
  assumes "state_inv st"
  shows "state_inv (process_frame P frame_area sample_every st results)"
proof -
  have "class_inv (frame_idx st + 1)
          (class_state (process_frame P frame_area sample_every st results) v)" for v
  proof -
    from assms have c: "class_inv (frame_idx st) (class_state st v)"
      by (simp add: state_inv_all)
    show ?thesis
    proof (cases results)
      case Nil
      then show ?thesis using class_inv_idle [OF c] by (simp add: process_frame_state)
    next
      case (Cons r rs)
      then show ?thesis using class_inv_step [OF c] by (simp add: process_frame_state)
    qed
  qed
  then show ?thesis by (simp add: state_inv_all process_frame_aggregates(1))
qed

lemma run_frames_inv_from:
  "state_inv st \<Longrightarrow> state_inv (run_frames P frame_area sample_every st fs)"
  by (induction fs arbitrary: st) (simp_all add: process_frame_inv)

lemma run_frames_inv: "state_inv (run_frames P frame_area sample_every init_state fs)"
  using init_state_inv by (rule run_frames_inv_from)

lemma run_frames_append:
  "run_frames P frame_area sample_every st (fs @ fs') =
     run_frames P frame_area sample_every (run_frames P frame_area sample_every st fs) fs'"
  by (induction fs arbitrary: st) simp_all

lemma run_class_inv:
  "class_inv (int (length fs))
     (class_state (run_frames P frame_area sample_every init_state fs) v)"
  using run_frames_inv [of P frame_area sample_every fs]
  by (simp add: state_inv_all run_frames_counters)

lemma track_class_mono:
  assumes "track_class thr f dets (ts, nid, uc) = (ts', nid', uc')"
  shows "uc \<le> uc' \<and> nid \<le> nid'"
  using assms match_tracks_uc_mono [of uc thr f dets "fresh_tracks f ts" "{}"]
  by (auto simp add: track_class_closed Let_def)

lemma process_frame_mono:
  "unique_counts st v \<le> unique_counts (process_frame P frame_area sample_every st results) v
   \<and> next_track_id st v \<le> next_track_id (process_frame P frame_area sample_every st results) v"
proof -
  let ?st' = "process_frame P frame_area sample_every st results"
  show ?thesis
  proof (cases results)
    case Nil
    then have "class_state ?st' v = class_state st v" by (simp add: process_frame_state)
    then show ?thesis by (simp add: class_state_def)
  next
    case (Cons r rs)
    then have "track_class (iou_thresh P) (frame_idx st)
                 (detections_by_class P frame_area r v)
                 (tracks st v, next_track_id st v, unique_counts st v) =
               (tracks ?st' v, next_track_id ?st' v, unique_counts ?st' v)"
      using process_frame_state [of P frame_area sample_every st results v]
      by (simp add: class_state_def)
    from track_class_mono [OF this] show ?thesis by simp
  qed
qed

lemma run_frames_mono:
  "unique_counts st v \<le> unique_counts (run_frames P frame_area sample_every st fs) v
   \<and> next_track_id st v \<le> next_track_id (run_frames P frame_area sample_every st fs) v"
proof (induction fs arbitrary: st)
  case Nil
  then show ?case by simp
next
  case (Cons r fs)
  from Cons [of "process_frame P frame_area sample_every st r"]
    process_frame_mono [of st v P frame_area sample_every r]
  show ?case by simp
qed

section \<open>The concrete run, class \<open>Car\<close>\<close>

lemma car_frame_step:
  "class_state (run_frames default_params 10000 se init_state (fs @ [[[car_box]]])) Car =
     track_class 0.3 (int (length fs)) [((10, 20, 50, 60), 0.9)]
       (class_state (run_frames default_params 10000 se init_state fs) Car)"
proof -
  have thr: "iou_thresh default_params = 0.3" by (simp add: default_params_def)
  have "class_state (run_frames default_params 10000 se init_state (fs @ [[[car_box]]])) Car =
     track_class (iou_thresh default_params) (int (length fs)) [((10, 20, 50, 60), 0.9)]
       (class_state (run_frames default_params 10000 se init_state fs) Car)"
    by (simp add: run_frames_snoc process_frame_state run_frames_counters buckets_car_box)
  then show ?thesis by (simp only: thr)
qed

lemmas track_eval = track_class_def fresh_tracks_def match_track_def TRACK_TIMEOUT_def
  CONFIRM_HITS_def Let_def

lemma car_run_1:
  "class_state (run_frames default_params 10000 se init_state [[[car_box]]]) Car =
     ([\<lparr>track_id = 1, bbox = (10, 20, 50, 60), last_seen = 0, hits = 1, counted = False\<rparr>],
      2, 0)"
proof -
  have "class_state (run_frames default_params 10000 se init_state ([] @ [[[car_box]]])) Car =
        track_class 0.3 (int (length ([] :: yolo_box list list list)))
          [((10, 20, 50, 60), 0.9)]
          (class_state (run_frames default_params 10000 se init_state []) Car)"
    by (rule car_frame_step)
  also have "\<dots> = track_class 0.3 0 [((10, 20, 50, 60), 0.9)] ([], 1, 0)"
    by (simp add: class_state_def init_state_def)
  also have "\<dots> = ([\<lparr>track_id = 1, bbox = (10, 20, 50, 60), last_seen = 0, hits = 1,
                       counted = False\<rparr>], 2, 0)"
    by (simp add: track_eval)
  finally show ?thesis by simp
qed

lemma car_run_2:
  "class_state (run_frames default_params 10000 se init_state [[[car_box]], [[car_box]]]) Car =
     ([\<lparr>track_id = 1, bbox = (10, 20, 50, 60), last_seen = 1, hits = 2, counted = False\<rparr>],
      2, 0)"
proof -
  have "class_state (run_frames default_params 10000 se init_state
           ([[[car_box]]] @ [[[car_box]]])) Car =
        track_class 0.3 (int (length [[[car_box]]])) [((10, 20, 50, 60), 0.9)]
          (class_state (run_frames default_params 10000 se init_state [[[car_box]]]) Car)"
    by (rule car_frame_step)
  also have "\<dots> = track_class 0.3 1 [((10, 20, 50, 60), 0.9)]
      ([\<lparr>track_id = 1, bbox = (10, 20, 50, 60), last_seen = 0, hits = 1, counted = False\<rparr>],
       2, 0)"
    by (simp only: car_run_1) simp
  also have "\<dots> = ([\<lparr>track_id = 1, bbox = (10, 20, 50, 60), last_seen = 1, hits = 2,
                       counted = False\<rparr>], 2, 0)"
    by (simp add: track_eval)
  finally show ?thesis by simp
qed

lemma car_run_3:
  "class_state (run_frames default_params 10000 se init_state
       [[[car_box]], [[car_box]], [[car_box]]]) Car =
     ([\<lparr>track_id = 1, bbox = (10, 20, 50, 60), last_seen = 2, hits = 3, counted = True\<rparr>],
      2, 1)"
proof -
  have "class_state (run_frames default_params 10000 se init_state
           ([[[car_box]], [[car_box]]] @ [[[car_box]]])) Car =
        track_class 0.3 (int (length [[[car_box]], [[car_box]]])) [((10, 20, 50, 60), 0.9)]
          (class_state (run_frames default_params 10000 se init_state
             [[[car_box]], [[car_box]]]) Car)"
    by (rule car_frame_step)
  also have "\<dots> = track_class 0.3 2 [((10, 20, 50, 60), 0.9)]
      ([\<lparr>track_id = 1, bbox = (10, 20, 50, 60), last_seen = 1, hits = 2, counted = False\<rparr>],
       2, 0)"
    by (simp only: car_run_2) simp
  also have "\<dots> = ([\<lparr>track_id = 1, bbox = (10, 20, 50, 60), last_seen = 2, hits = 3,
                       counted = True\<rparr>], 2, 1)"
    by (simp add: track_eval)
  finally show ?thesis by simp
qed

text \<open>
  Claim C10. At every frame boundary of a run and for every class, the unique count is
  at most the number of tracks created so far, \<open>next_track_id - 1\<close>, where
  \<open>next_track_id\<close> starts at 1; and neither quantity decreases as the run goes on.
\<close>

theorem unique_count_bounded:
  "unique_counts (run_frames P frame_area sample_every init_state fs) v
      \<le> next_track_id (run_frames P frame_area sample_every init_state fs) v - 1
   \<and> unique_counts (run_frames P frame_area sample_every init_state fs) v
      \<le> unique_counts (run_frames P frame_area sample_every init_state (fs @ fs')) v
   \<and> next_track_id (run_frames P frame_area sample_every init_state fs) v
      \<le> next_track_id (run_frames P frame_area sample_every init_state (fs @ fs')) v
   \<and> next_track_id init_state v = 1"
proof -
  let ?st = "run_frames P frame_area sample_every init_state fs"
  have "class_inv (int (length fs)) (class_state ?st v)" by (rule run_class_inv)
  then have "unique_counts ?st v
               + int (length (filter (\<lambda>t. \<not> counted t) (tracks ?st v)))
             \<le> next_track_id ?st v - 1"
    by (simp add: class_inv_def class_state_def)
  then have "unique_counts ?st v \<le> next_track_id ?st v - 1" by linarith
  moreover have "next_track_id init_state v = 1" by (simp add: init_state_def)
  ultimately show ?thesis
    using run_frames_mono [of ?st v P frame_area sample_every fs']
    by (simp add: run_frames_append)
qed

theorem unique_count_bounded_witness:
  "unique_counts (run_frames default_params 10000 2 init_state [[[car_box]]]) Car = 0
   \<and> next_track_id (run_frames default_params 10000 2 init_state [[[car_box]]]) Car = 2
   \<and> unique_counts (run_frames default_params 10000 2 init_state
        ([[[car_box]]] @ [[[car_box]], [[car_box]]])) Car = 1
   \<and> next_track_id (run_frames default_params 10000 2 init_state
        ([[[car_box]]] @ [[[car_box]], [[car_box]]])) Car = 2
   \<and> unique_counts (run_frames default_params 10000 2 init_state [[[car_box]]]) Car
      \<le> next_track_id (run_frames default_params 10000 2 init_state [[[car_box]]]) Car - 1
   \<and> unique_counts (run_frames default_params 10000 2 init_state [[[car_box]]]) Car
      \<le> unique_counts (run_frames default_params 10000 2 init_state
           ([[[car_box]]] @ [[[car_box]], [[car_box]]])) Car"
  using unique_count_bounded [of default_params 10000 2 "[[[car_box]]]" Car
      "[[[car_box]], [[car_box]]]"]
    car_run_1 [of 2] car_run_3 [of 2]
  by (simp add: class_state_def)

lemma run_tracks_ok:
  assumes "t \<in> set (tracks (run_frames P frame_area sample_every init_state fs) v)"
  shows "track_ok t"
  using run_class_inv [of fs P frame_area sample_every v] assms
  by (auto simp add: class_inv_def class_state_def list_all_iff)

lemma track_class_count:
  assumes "list_all track_ok ts"
    and "track_class thr f dets (ts, nid, uc) = (ts', nid', uc')"
  shows "uc' = uc + int (length (filter counted ts'))
                - int (length (filter counted (fresh_tracks f ts)))"
proof -
  have "list_all track_ok (fresh_tracks f ts)"
    using assms(1) by (auto simp add: fresh_tracks_def list_all_iff)
  from match_tracks_count [OF this, of thr f dets "{}" uc] assms(2)
  show ?thesis by (auto simp add: track_class_closed Let_def counted_new_tracks)
qed

section \<open>Expiry of tracks\<close>







lemma unmatched_none_used: "unmatched {} ds j = ds"
proof -
  have "filter (\<lambda>(k, d). k \<notin> {}) (enumerate j ds) = enumerate j ds"
    by (simp add: case_prod_beta)
  then show ?thesis by (simp add: unmatched_def)
qed

lemma match_tracks_no_dets: "match_tracks thr f [] ts s = (ts, s)"
proof (induction ts arbitrary: s)
  case Nil
  then show ?case by simp
next
  case (Cons t ts)
  have "match_track thr f [] t s = (t, s)" by (cases s) (simp add: match_track_def)
  then show ?case using Cons by simp
qed

lemma track_class_no_dets:
  "track_class thr f [] (ts, nid, uc) = (fresh_tracks f ts, nid, uc)"
  by (simp add: track_class_def match_tracks_no_dets)

lemma track_class_all_expired:
  assumes "fresh_tracks f ts = []"
  shows "track_class thr f dets (ts, nid, uc) =
           (new_tracks f nid dets, nid + int (length dets), uc)"
  using assms by (simp add: track_class_closed unmatched_none_used)

lemma track_class_result:
  assumes tc: "track_class thr f dets (ts, nid, uc) = (ts', nid', uc')"
    and u: "u \<in> set ts'"
  shows "track_id u \<in> track_id ` set (fresh_tracks f ts)
         \<or> (nid \<le> track_id u \<and> hits u = 1 \<and> \<not> counted u \<and> last_seen u = f)"
proof -
  let ?m = "match_tracks thr f dets (fresh_tracks f ts) ({}, uc)"
  let ?um = "unmatched (fst (snd ?m)) dets 0"
  from tc have "ts' = fst ?m @ new_tracks f nid ?um"
    by (simp add: track_class_closed Let_def)
  with u have "u \<in> set (fst ?m) \<or> u \<in> set (new_tracks f nid ?um)" by simp
  then show ?thesis
  proof
    assume "u \<in> set (fst ?m)"
    then have "track_id u \<in> set (map track_id (fst ?m))" by simp
    then have "track_id u \<in> set (map track_id (fresh_tracks f ts))"
      by (simp only: match_tracks_ids)
    then show ?thesis by simp
  next
    assume "u \<in> set (new_tracks f nid ?um)"
    from new_tracks_fields [OF this] show ?thesis by simp
  qed
qed

lemma idle_frames_state:
  assumes "\<forall>u \<in> set (tracks st v). frame_idx st + int n - 1 - last_seen u \<le> TRACK_TIMEOUT"
  shows "class_state (run_frames P frame_area sample_every st (replicate n [[]])) v
           = class_state st v"
  using assms
proof (induction n arbitrary: st)
  case 0
  then show ?case by simp
next
  case (Suc n)
  let ?st' = "process_frame P frame_area sample_every st [[]]"
  have fresh: "fresh_tracks (frame_idx st) (tracks st v) = tracks st v"
    using Suc.prems by (auto simp add: fresh_tracks_def intro!: filter_True)
  have "class_state ?st' v =
          track_class (iou_thresh P) (frame_idx st) (detections_by_class P frame_area [] v)
            (class_state st v)"
    by (simp add: process_frame_state)
  also have "\<dots> = (fresh_tracks (frame_idx st) (tracks st v), next_track_id st v,
                     unique_counts st v)"
    by (simp add: detections_by_class_def class_state_def track_class_no_dets)
  also have "\<dots> = class_state st v" using fresh by (simp add: class_state_def)
  finally have same: "class_state ?st' v = class_state st v" .
  then have "tracks ?st' v = tracks st v" by (simp add: class_state_def)
  moreover have "frame_idx ?st' = frame_idx st + 1" by (rule process_frame_aggregates(1))
  ultimately have "\<forall>u \<in> set (tracks ?st' v).
      frame_idx ?st' + int n - 1 - last_seen u \<le> TRACK_TIMEOUT"
    using Suc.prems by simp
  from Suc.IH [OF this] same show ?case by simp
qed

lemma expiry_run_state:
  "class_state (run_frames default_params 10000 2 init_state scenario_expiry) Car =
     ([\<lparr>track_id = 1, bbox = (10, 20, 50, 60), last_seen = 0, hits = 1, counted = False\<rparr>],
      2, 0)"
  "frame_idx (run_frames default_params 10000 2 init_state scenario_expiry) = 31"
proof -
  let ?st1 = "process_frame default_params 10000 2 init_state [[car_box]]"
  have one: "class_state ?st1 Car =
     ([\<lparr>track_id = 1, bbox = (10, 20, 50, 60), last_seen = 0, hits = 1, counted = False\<rparr>],
      2, 0)"
    using car_run_1 [of 2] by simp
  have "frame_idx ?st1 = 1" by (simp add: process_frame_aggregates(1) init_state_def)
  with one have "\<forall>u \<in> set (tracks ?st1 Car).
      frame_idx ?st1 + int 30 - 1 - last_seen u \<le> TRACK_TIMEOUT"
    by (simp add: class_state_def TRACK_TIMEOUT_def)
  from idle_frames_state [OF this, of default_params 10000 2] one
  show "class_state (run_frames default_params 10000 2 init_state scenario_expiry) Car =
     ([\<lparr>track_id = 1, bbox = (10, 20, 50, 60), last_seen = 0, hits = 1, counted = False\<rparr>],
      2, 0)"
    by (simp add: scenario_expiry_def)
  show "frame_idx (run_frames default_params 10000 2 init_state scenario_expiry) = 31"
    by (simp only: run_frames_counters) (simp add: scenario_expiry_def)
qed

section \<open>The totals of a run\<close>

text \<open>A class that gets no detection and has no track keeps its triple.\<close>

lemma quiet_class_state:
  assumes "\<forall>results \<in> set fs. \<forall>r rs. results = r # rs \<longrightarrow>
             detections_by_class P frame_area r v = []"
    and "tracks st v = []"
  shows "class_state (run_frames P frame_area sample_every st fs) v = class_state st v"
  using assms
proof (induction fs arbitrary: st)
  case Nil
  then show ?case by simp
next
  case (Cons results fs)
  let ?st' = "process_frame P frame_area sample_every st results"
  have same: "class_state ?st' v = class_state st v"
  proof (cases results)
    case Nil
    then show ?thesis by (simp add: process_frame_state)
  next
    case (Cons r rs)
    with Cons.prems(1) have "detections_by_class P frame_area r v = []" by simp
    then have "class_state ?st' v =
                 track_class (iou_thresh P) (frame_idx st) [] (class_state st v)"
      using Cons by (simp add: process_frame_state)
    also have "\<dots> = class_state st v"
      using Cons.prems(2) by (simp add: class_state_def track_class_no_dets fresh_tracks_def)
    finally show ?thesis .
  qed
  then have "tracks ?st' v = []" using Cons.prems(2) by (simp add: class_state_def)
  moreover have "\<forall>results \<in> set fs. \<forall>r rs. results = r # rs \<longrightarrow>
             detections_by_class P frame_area r v = []"
    using Cons.prems(1) by simp
  ultimately show ?case using Cons.IH [of ?st'] same by simp
qed

lemma car_run_4:
  "class_state (run_frames default_params 10000 se init_state
       [[[car_box]], [[car_box]], [[car_box]], [[car_box]]]) Car =
     ([\<lparr>track_id = 1, bbox = (10, 20, 50, 60), last_seen = 3, hits = 4, counted = True\<rparr>],
      2, 1)"
proof -
  have "class_state (run_frames default_params 10000 se init_state
           ([[[car_box]], [[car_box]], [[car_box]]] @ [[[car_box]]])) Car =
        track_class 0.3 (int (length [[[car_box]], [[car_box]], [[car_box]]]))
          [((10, 20, 50, 60), 0.9)]
          (class_state (run_frames default_params 10000 se init_state
             [[[car_box]], [[car_box]], [[car_box]]]) Car)"
    by (rule car_frame_step)
  also have "\<dots> = track_class 0.3 3 [((10, 20, 50, 60), 0.9)]
      ([\<lparr>track_id = 1, bbox = (10, 20, 50, 60), last_seen = 2, hits = 3, counted = True\<rparr>],
       2, 1)"
    by (simp only: car_run_3) simp
  also have "\<dots> = ([\<lparr>track_id = 1, bbox = (10, 20, 50, 60), last_seen = 3, hits = 4,
                       counted = True\<rparr>], 2, 1)"
    by (simp add: track_eval)
  finally show ?thesis by simp
qed

lemma car_run_5:
  "class_state (run_frames default_params 10000 se init_state
       [[[car_box]], [[car_box]], [[car_box]], [[car_box]], [[car_box]]]) Car =
     ([\<lparr>track_id = 1, bbox = (10, 20, 50, 60), last_seen = 4, hits = 5, counted = True\<rparr>],
      2, 1)"
proof -
  have "class_state (run_frames default_params 10000 se init_state
           ([[[car_box]], [[car_box]], [[car_box]], [[car_box]]] @ [[[car_box]]])) Car =
        track_class 0.3 (int (length [[[car_box]], [[car_box]], [[car_box]], [[car_box]]]))
          [((10, 20, 50, 60), 0.9)]
          (class_state (run_frames default_params 10000 se init_state
             [[[car_box]], [[car_box]], [[car_box]], [[car_box]]]) Car)"
    by (rule car_frame_step)
  also have "\<dots> = track_class 0.3 4 [((10, 20, 50, 60), 0.9)]
      ([\<lparr>track_id = 1, bbox = (10, 20, 50, 60), last_seen = 3, hits = 4, counted = True\<rparr>],
       2, 1)"
    by (simp only: car_run_4) simp
  also have "\<dots> = ([\<lparr>track_id = 1, bbox = (10, 20, 50, 60), last_seen = 4, hits = 5,
                       counted = True\<rparr>], 2, 1)"
    by (simp add: track_eval)
  finally show ?thesis by simp
qed

lemma scenario_A_counts:
  "unique_counts (run_frames default_params (width scenario_A * height scenario_A)
      (max 1 (fps scenario_A div 5)) init_state (frames scenario_A)) v =
     (if v = Car then 1 else 0)"
proof (cases "v = Car")
  case True
  then show ?thesis using car_run_5 [of 2] by (simp add: scenario_A_def class_state_def)
next
  case False
  have "\<forall>results \<in> set (frames scenario_A). \<forall>r rs. results = r # rs \<longrightarrow>
          detections_by_class default_params 10000 r v = []"
    using False by (simp add: scenario_A_def buckets_car_box)
  moreover have "tracks init_state v = []" by (simp add: init_state_def)
  ultimately have "class_state (run_frames default_params 10000 2 init_state
                      (frames scenario_A)) v = class_state init_state v"
    by (rule quiet_class_state)
  then show ?thesis using False by (simp add: scenario_A_def class_state_def init_state_def)
qed

text \<open>
  Claim C4. With capture and writer open and at least one frame, the run returns a
  record whose density is \<open>min(100, 100 * M / 45)\<close>, where \<open>M\<close> is the largest
  per-frame total of accepted detections; its \<open>vehicle_counts\<close> are the unique counts
  the run ends with, and its \<open>total_vehicles\<close> is the sum of these four counts.
\<close>

theorem process_video_density_total:
  assumes "cap_opened V" and "out_opened V" and "frames V \<noteq> []"
  shows "\<exists>r. process_video P V = Inr r
           \<and> density r = min 100 (100 * real_of_int
                 (Max (set (map (frame_total P (width V * height V)) (frames V)))) / 45)
           \<and> vehicle_counts r =
               unique_counts (run_frames P (width V * height V) (max 1 (fps V div 5))
                                init_state (frames V))
           \<and> total_vehicles r =
               unique_counts (run_frames P (width V * height V) (max 1 (fps V div 5))
                                init_state (frames V)) Car
               + unique_counts (run_frames P (width V * height V) (max 1 (fps V div 5))
                                init_state (frames V)) Truck
               + unique_counts (run_frames P (width V * height V) (max 1 (fps V div 5))
                                init_state (frames V)) Bus
               + unique_counts (run_frames P (width V * height V) (max 1 (fps V div 5))
                                init_state (frames V)) Motorcycle
           \<and> total_vehicles r = vehicle_counts r Car + vehicle_counts r Truck
                 + vehicle_counts r Bus + vehicle_counts r Motorcycle
           \<and> capacity = 15 * 3"
proof -
  let ?st = "run_frames P (width V * height V) (max 1 (fps V div 5)) init_state (frames V)"
  have "max_total_concurrent ?st =
          Max (insert 0 (set (map (frame_total P (width V * height V)) (frames V))))"
    by (rule run_frames_max)
  also have "\<dots> = Max (set (map (frame_total P (width V * height V)) (frames V)))"
    using assms(3) by (rule Max_frame_totals)
  finally have m: "max_total_concurrent ?st =
          Max (set (map (frame_total P (width V * height V)) (frames V)))" .
  have c: "capacity = 15 * 3"
    by (simp add: capacity_def MAX_VEHICLES_PER_LANE_def NUM_LANES_def)
  show ?thesis
    unfolding process_video_closed [OF assms] Let_def
    by (simp only: m c) (simp add: class_order_def)
qed

theorem process_video_density_total_witness:
  "cap_opened scenario_A \<and> out_opened scenario_A \<and> frames scenario_A \<noteq> []
   \<and> (\<exists>r. process_video default_params scenario_A = Inr r
          \<and> density r = 20 / 9
          \<and> total_vehicles r = 1
          \<and> vehicle_counts r Car = 1 \<and> vehicle_counts r Truck = 0
          \<and> vehicle_counts r Bus = 0 \<and> vehicle_counts r Motorcycle = 0)"
proof -
  let ?st = "run_frames default_params (width scenario_A * height scenario_A)
      (max 1 (fps scenario_A div 5)) init_state (frames scenario_A)"
  have h: "cap_opened scenario_A" "out_opened scenario_A" "frames scenario_A \<noteq> []"
    by (simp_all add: scenario_A_def)
  have m: "Max (set (map (frame_total default_params (width scenario_A * height scenario_A))
                  (frames scenario_A))) = 1"
    by (simp add: scenario_A_def frame_total_car_box)
  from process_video_density_total [OF h, of default_params]
  obtain r where r: "process_video default_params scenario_A = Inr r"
    and d: "density r = min 100 (100 * real_of_int
           (Max (set (map (frame_total default_params (width scenario_A * height scenario_A))
                  (frames scenario_A)))) / 45)"
    and vc: "vehicle_counts r = unique_counts ?st"
    and t: "total_vehicles r = unique_counts ?st Car + unique_counts ?st Truck
              + unique_counts ?st Bus + unique_counts ?st Motorcycle"
    by blast
  from d have d': "density r = 20 / 9" by (simp only: m)
  from t have t': "total_vehicles r = 1" by (simp only: scenario_A_counts) simp
  from vc have v': "vehicle_counts r Car = 1" "vehicle_counts r Truck = 0"
    "vehicle_counts r Bus = 0" "vehicle_counts r Motorcycle = 0"
    by (simp_all only: scenario_A_counts) simp_all
  from r d' t' v' h show ?thesis by blast
qed

section \<open>Confirmations in a frame\<close>

lemma match_tracks_confirmations:
  assumes "list_all track_ok ts"
  shows "snd (snd (match_tracks thr f dets ts (used, uc))) =
           uc + int (length (filter (\<lambda>(t, t'). \<not> counted t \<and> hits t' = CONFIRM_HITS)
                      (zip ts (fst (match_tracks thr f dets ts (used, uc))))))"
  using assms
proof (induction ts arbitrary: used uc)
  case Nil
  then show ?case by simp
next
  case (Cons t ts)
  obtain t' used' uc' where m: "match_track thr f dets t (used, uc) = (t', used', uc')"
    by (cases "match_track thr f dets t (used, uc)")
  from Cons.prems have ok: "track_ok t" and rest: "list_all track_ok ts" by simp_all
  have "uc' = uc + (if \<not> counted t \<and> hits t' = CONFIRM_HITS then 1 else 0)"
    using match_track_count(2,3) [OF ok m] by auto
  then show ?case
    using Cons.IH [OF rest, where used = used' and uc = uc']
    by (simp add: match_tracks_Cons m del: match_tracks.simps(2))
qed

lemma match_tracks_pairs:
  assumes ok: "list_all track_ok ts"
    and p: "(t, t') \<in> set (zip ts (fst (match_tracks thr f dets ts s)))"
  shows "track_id t' = track_id t
         \<and> (\<not> counted t \<and> hits t' = CONFIRM_HITS
              \<longrightarrow> counted t' \<and> hits t = CONFIRM_HITS - 1)
         \<and> (counted t \<longrightarrow> counted t')"
proof -
  from p obtain i where i: "i < length ts" "t = ts ! i"
    "t' = fst (match_tracks thr f dets ts s) ! i"
    by (auto simp add: in_set_zip)
  obtain U c where U: "snd (match_tracks thr f dets (take i ts) s) = (U, c)"
    by (cases "snd (match_tracks thr f dets (take i ts) s)")
  obtain U' c' where U': "snd (match_tracks thr f dets (take (Suc i) ts) s) = (U', c')"
    by (cases "snd (match_tracks thr f dets (take (Suc i) ts) s)")
  have step: "match_track thr f dets t (U, c) = (t', U', c')"
    using match_tracks_step [OF i(1), of thr f dets s] U U' i(2,3) by simp
  have tok: "track_ok t" using ok i(1,2) by (simp add: list_all_length)
  from match_track_count(3,4,5,6,7) [OF tok step] show ?thesis by blast
qed

lemma frame_unique_count:
  assumes "state_inv st"
  shows "unique_counts (process_frame P frame_area sample_every st (r # rs)) v =
           unique_counts st v
           + int (length (filter (\<lambda>(t, t'). \<not> counted t \<and> hits t' = CONFIRM_HITS)
               (zip (fresh_tracks (frame_idx st) (tracks st v))
                    (tracks (process_frame P frame_area sample_every st (r # rs)) v))))"
    and "\<forall>(t, t') \<in> set (zip (fresh_tracks (frame_idx st) (tracks st v))
                   (tracks (process_frame P frame_area sample_every st (r # rs)) v)).
           track_id t' = track_id t
           \<and> (\<not> counted t \<and> hits t' = CONFIRM_HITS
                \<longrightarrow> counted t' \<and> hits t = CONFIRM_HITS - 1)
           \<and> (counted t \<longrightarrow> counted t')"
proof -
  let ?st' = "process_frame P frame_area sample_every st (r # rs)"
  let ?fr = "fresh_tracks (frame_idx st) (tracks st v)"
  let ?dets = "detections_by_class P frame_area r v"
  let ?m = "match_tracks (iou_thresh P) (frame_idx st) ?dets ?fr ({}, unique_counts st v)"
  let ?new = "new_tracks (frame_idx st) (next_track_id st v)
                (unmatched (fst (snd ?m)) ?dets 0)"
  have "class_state ?st' v =
          track_class (iou_thresh P) (frame_idx st) ?dets
            (tracks st v, next_track_id st v, unique_counts st v)"
    by (simp add: process_frame_state) (simp add: class_state_def)
  then have tr: "tracks ?st' v = fst ?m @ ?new" and uc: "unique_counts ?st' v = snd (snd ?m)"
    by (simp_all add: track_class_closed Let_def class_state_def)
  have len: "length (fst ?m) = length ?fr" by (rule match_tracks_length)
  have z: "zip ?fr (tracks ?st' v) = zip ?fr (fst ?m)"
    unfolding tr using len by (simp add: zip_append2)
  from assms have "class_inv (frame_idx st) (class_state st v)" by (simp add: state_inv_all)
  then have "list_all track_ok (tracks st v)"
    by (simp add: class_inv_def class_state_def list_all_iff)
  then have ok: "list_all track_ok ?fr" by (auto simp add: fresh_tracks_def list_all_iff)
  show "unique_counts ?st' v =
           unique_counts st v
           + int (length (filter (\<lambda>(t, t'). \<not> counted t \<and> hits t' = CONFIRM_HITS)
               (zip ?fr (tracks ?st' v))))"
    unfolding z uc using ok by (rule match_tracks_confirmations)
  show "\<forall>(t, t') \<in> set (zip ?fr (tracks ?st' v)).
           track_id t' = track_id t
           \<and> (\<not> counted t \<and> hits t' = CONFIRM_HITS
                \<longrightarrow> counted t' \<and> hits t = CONFIRM_HITS - 1)
           \<and> (counted t \<longrightarrow> counted t')"
    unfolding z using match_tracks_pairs [OF ok] by blast
qed

lemma frame_without_results:
  "unique_counts (process_frame P frame_area sample_every st []) v = unique_counts st v"
proof -
  have "class_state (process_frame P frame_area sample_every st []) v = class_state st v"
    by (simp add: process_frame_state)
  then show ?thesis by (simp add: class_state_def)
qed

text \<open>
  Claim C1. Take any state \<open>st\<close> of any run and any class \<open>v\<close>. A frame with detector
  results changes \<open>unique_counts[v]\<close> by exactly the number of surviving tracks of \<open>v\<close>
  that were not counted and whose hits reach \<open>CONFIRM_HITS = 3\<close> in this frame; each of
  them had 2 hits before and has its flag set after, a counted track stays counted and
  is not among them, and a frame without results leaves the count as it is. The frame
  does this through the matcher: its outcome for \<open>v\<close> is \<open>track_class\<close> on the triple
  of \<open>v\<close>, and one pass of the matcher over a stored track \<open>t\<close> (lines 170--187) leaves
  the count as it is or adds exactly 1, the latter exactly when \<open>t\<close> was not counted and
  its hits have just reached 3. The count never decreases.
\<close>

theorem unique_count_confirmation:
  fixes P frame_area sample_every fs v
  defines "st \<equiv> run_frames P frame_area sample_every init_state fs"
  shows "(\<forall>r rs.
            unique_counts (process_frame P frame_area sample_every st (r # rs)) v =
              unique_counts st v
              + int (length (filter (\<lambda>(t, t'). \<not> counted t \<and> hits t' = CONFIRM_HITS)
                  (zip (fresh_tracks (frame_idx st) (tracks st v))
                       (tracks (process_frame P frame_area sample_every st (r # rs)) v))))
            \<and> (\<forall>(t, t') \<in> set (zip (fresh_tracks (frame_idx st) (tracks st v))
                       (tracks (process_frame P frame_area sample_every st (r # rs)) v)).
                  track_id t' = track_id t
                  \<and> (\<not> counted t \<and> hits t' = CONFIRM_HITS
                       \<longrightarrow> counted t' \<and> hits t = CONFIRM_HITS - 1)
                  \<and> (counted t \<longrightarrow> counted t'))
            \<and> class_state (process_frame P frame_area sample_every st (r # rs)) v =
                track_class (iou_thresh P) (frame_idx st)
                  (detections_by_class P frame_area r v) (class_state st v))
       \<and> unique_counts (process_frame P frame_area sample_every st []) v = unique_counts st v
       \<and> (\<forall>t \<in> set (tracks st v). \<forall>thr f dets used uc t' used' uc'.
            match_track thr f dets t (used, uc) = (t', used', uc') \<longrightarrow>
              (uc' = uc \<or> uc' = uc + 1)
              \<and> (uc' = uc + 1 \<longleftrightarrow> \<not> counted t \<and> hits t' = CONFIRM_HITS)
              \<and> (uc' = uc + 1 \<longrightarrow> counted t' \<and> hits t = CONFIRM_HITS - 1)
              \<and> (counted t \<longrightarrow> counted t' \<and> uc' = uc))
       \<and> (\<forall>thr f dets ts' nid' uc'.
            track_class thr f dets (class_state st v) = (ts', nid', uc') \<longrightarrow>
              uc' = unique_counts st v + int (length (filter counted ts'))
                      - int (length (filter counted (fresh_tracks f (tracks st v)))))
       \<and> (\<forall>results. unique_counts st v
             \<le> unique_counts (process_frame P frame_area sample_every st results) v)
       \<and> CONFIRM_HITS = 3"
proof -
  have sinv: "state_inv st" unfolding st_def by (rule run_frames_inv)
  have frame: "unique_counts (process_frame P frame_area sample_every st (r # rs)) v =
              unique_counts st v
              + int (length (filter (\<lambda>(t, t'). \<not> counted t \<and> hits t' = CONFIRM_HITS)
                  (zip (fresh_tracks (frame_idx st) (tracks st v))
                       (tracks (process_frame P frame_area sample_every st (r # rs)) v))))
            \<and> (\<forall>(t, t') \<in> set (zip (fresh_tracks (frame_idx st) (tracks st v))
                       (tracks (process_frame P frame_area sample_every st (r # rs)) v)).
                  track_id t' = track_id t
                  \<and> (\<not> counted t \<and> hits t' = CONFIRM_HITS
                       \<longrightarrow> counted t' \<and> hits t = CONFIRM_HITS - 1)
                  \<and> (counted t \<longrightarrow> counted t'))
            \<and> class_state (process_frame P frame_area sample_every st (r # rs)) v =
                track_class (iou_thresh P) (frame_idx st)
                  (detections_by_class P frame_area r v) (class_state st v)" for r rs
    using frame_unique_count [OF sinv, where P = P and frame_area = frame_area
        and sample_every = sample_every and r = r and rs = rs and v = v]
    by (simp add: process_frame_state)
  have idle: "unique_counts (process_frame P frame_area sample_every st []) v
                = unique_counts st v"
    by (rule frame_without_results)
  have step: "\<forall>t \<in> set (tracks st v). \<forall>thr f dets used uc t' used' uc'.
            match_track thr f dets t (used, uc) = (t', used', uc') \<longrightarrow>
              (uc' = uc \<or> uc' = uc + 1)
              \<and> (uc' = uc + 1 \<longleftrightarrow> \<not> counted t \<and> hits t' = CONFIRM_HITS)
              \<and> (uc' = uc + 1 \<longrightarrow> counted t' \<and> hits t = CONFIRM_HITS - 1)
              \<and> (counted t \<longrightarrow> counted t' \<and> uc' = uc)"
  proof (intro ballI allI impI)
    fix t thr f dets used uc t' used' uc'
    assume t: "t \<in> set (tracks st v)"
      and m: "match_track thr f dets t (used, uc) = (t', used', uc')"
    from t have ok: "track_ok t" unfolding st_def by (rule run_tracks_ok)
    from match_track_count(2,3,4,5,6) [OF ok m]
    show "(uc' = uc \<or> uc' = uc + 1)
              \<and> (uc' = uc + 1 \<longleftrightarrow> \<not> counted t \<and> hits t' = CONFIRM_HITS)
              \<and> (uc' = uc + 1 \<longrightarrow> counted t' \<and> hits t = CONFIRM_HITS - 1)
              \<and> (counted t \<longrightarrow> counted t' \<and> uc' = uc)"
      by blast
  qed
  have cls: "\<forall>thr f dets ts' nid' uc'.
            track_class thr f dets (class_state st v) = (ts', nid', uc') \<longrightarrow>
              uc' = unique_counts st v + int (length (filter counted ts'))
                      - int (length (filter counted (fresh_tracks f (tracks st v))))"
  proof (intro allI impI)
    fix thr f dets ts' nid' uc'
    assume tc: "track_class thr f dets (class_state st v) = (ts', nid', uc')"
    have "list_all track_ok (tracks st v)"
      using run_tracks_ok [of _ P frame_area sample_every fs v]
      unfolding st_def by (simp add: list_all_iff)
    from track_class_count [OF this] tc
    show "uc' = unique_counts st v + int (length (filter counted ts'))
                      - int (length (filter counted (fresh_tracks f (tracks st v))))"
      by (simp add: class_state_def)
  qed
  have mono: "\<forall>results. unique_counts st v
             \<le> unique_counts (process_frame P frame_area sample_every st results) v"
    using process_frame_mono [of st v P frame_area sample_every] by simp
  have ch: "CONFIRM_HITS = 3" by (simp add: CONFIRM_HITS_def)
  from frame idle step cls mono ch show ?thesis by blast
qed

lemma car_frame_after:
  "process_frame default_params 10000 se
       (run_frames default_params 10000 se init_state fs) [[car_box]] =
     run_frames default_params 10000 se init_state (fs @ [[[car_box]]])"
  by (simp add: run_frames_snoc)

theorem unique_count_confirmation_witness:
  "unique_counts (run_frames default_params 10000 2 init_state
      [[[car_box]], [[car_box]]]) Car = 0
   \<and> unique_counts (process_frame default_params 10000 2
        (run_frames default_params 10000 2 init_state [[[car_box]], [[car_box]]])
        [[car_box]]) Car = 1
   \<and> tracks (run_frames default_params 10000 2 init_state [[[car_box]], [[car_box]]]) Car =
       [\<lparr>track_id = 1, bbox = (10, 20, 50, 60), last_seen = 1, hits = 2, counted = False\<rparr>]
   \<and> tracks (process_frame default_params 10000 2
        (run_frames default_params 10000 2 init_state [[[car_box]], [[car_box]]])
        [[car_box]]) Car =
       [\<lparr>track_id = 1, bbox = (10, 20, 50, 60), last_seen = 2, hits = 3, counted = True\<rparr>]
   \<and> unique_counts (run_frames default_params 10000 2 init_state
      [[[car_box]], [[car_box]], [[car_box]]]) Car = 1
   \<and> unique_counts (process_frame default_params 10000 2
        (run_frames default_params 10000 2 init_state
           [[[car_box]], [[car_box]], [[car_box]]])
        [[car_box]]) Car = 1
   \<and> tracks (process_frame default_params 10000 2
        (run_frames default_params 10000 2 init_state
           [[[car_box]], [[car_box]], [[car_box]]])
        [[car_box]]) Car =
       [\<lparr>track_id = 1, bbox = (10, 20, 50, 60), last_seen = 3, hits = 4, counted = True\<rparr>]"
proof -
  let ?t2 = "\<lparr>track_id = 1, bbox = (10, 20, 50, 60), last_seen = 1, hits = 2,
               counted = False\<rparr>"
  let ?t3 = "\<lparr>track_id = 1, bbox = (10, 20, 50, 60), last_seen = 2, hits = 3,
               counted = True\<rparr>"
  let ?t4 = "\<lparr>track_id = 1, bbox = (10, 20, 50, 60), last_seen = 3, hits = 4,
               counted = True\<rparr>"
  let ?st2 = "run_frames default_params 10000 2 init_state [[[car_box]], [[car_box]]]"
  let ?st3 = "run_frames default_params 10000 2 init_state
                [[[car_box]], [[car_box]], [[car_box]]]"
  have s2: "tracks ?st2 Car = [?t2]" "unique_counts ?st2 Car = 0"
    using car_run_2 [of 2] by (simp_all add: class_state_def)
  have s3: "tracks ?st3 Car = [?t3]" "unique_counts ?st3 Car = 1"
    using car_run_3 [of 2] by (simp_all add: class_state_def)
  have f2: "frame_idx ?st2 = 2" and f3: "frame_idx ?st3 = 3"
    by (simp_all only: run_frames_counters) simp_all
  have a2: "tracks (process_frame default_params 10000 2 ?st2 [[car_box]]) Car = [?t3]"
    using car_frame_after [of 2 "[[[car_box]], [[car_box]]]"] car_run_3 [of 2]
    by (simp add: class_state_def)
  have a3: "tracks (process_frame default_params 10000 2 ?st3 [[car_box]]) Car = [?t4]"
    using car_frame_after [of 2 "[[[car_box]], [[car_box]], [[car_box]]]"] car_run_4 [of 2]
    by (simp add: class_state_def)
  have fr2: "fresh_tracks (frame_idx ?st2) [?t2] = [?t2]"
    by (simp only: f2) (simp add: fresh_tracks_def TRACK_TIMEOUT_def)
  have fr3: "fresh_tracks (frame_idx ?st3) [?t3] = [?t3]"
    by (simp only: f3) (simp add: fresh_tracks_def TRACK_TIMEOUT_def)
  from unique_count_confirmation [of default_params 10000 2 "[[[car_box]], [[car_box]]]" Car]
  have "unique_counts (process_frame default_params 10000 2 ?st2 [[car_box]]) Car =
          unique_counts ?st2 Car
          + int (length (filter (\<lambda>(t, t'). \<not> counted t \<and> hits t' = CONFIRM_HITS)
              (zip (fresh_tracks (frame_idx ?st2) (tracks ?st2 Car))
                   (tracks (process_frame default_params 10000 2 ?st2 [[car_box]]) Car))))"
    by blast
  then have c2: "unique_counts (process_frame default_params 10000 2 ?st2 [[car_box]]) Car = 1"
    by (simp only: a2 s2 fr2) (simp add: CONFIRM_HITS_def)
  from unique_count_confirmation
    [of default_params 10000 2 "[[[car_box]], [[car_box]], [[car_box]]]" Car]
  have "unique_counts (process_frame default_params 10000 2 ?st3 [[car_box]]) Car =
          unique_counts ?st3 Car
          + int (length (filter (\<lambda>(t, t'). \<not> counted t \<and> hits t' = CONFIRM_HITS)
              (zip (fresh_tracks (frame_idx ?st3) (tracks ?st3 Car))
                   (tracks (process_frame default_params 10000 2 ?st3 [[car_box]]) Car))))"
    by blast
  then have c3: "unique_counts (process_frame default_params 10000 2 ?st3 [[car_box]]) Car = 1"
    by (simp only: a3 s3 fr3) (simp add: CONFIRM_HITS_def)
  from s2 c2 a2 s3 c3 a3 show ?thesis by blast
qed

section \<open>The matcher in a frame of a run\<close>

lemma frame_class_state:
  "class_state (process_frame P frame_area sample_every st (r # rs)) v =
     track_class (iou_thresh P) (frame_idx st) (detections_by_class P frame_area r v)
       (class_state st v)"
  by (simp add: process_frame_state)

lemma frame_tracks:
  "tracks (process_frame P frame_area sample_every st (r # rs)) v =
     fst (match_tracks (iou_thresh P) (frame_idx st) (detections_by_class P frame_area r v)
            (fresh_tracks (frame_idx st) (tracks st v)) ({}, unique_counts st v))
     @ new_tracks (frame_idx st) (next_track_id st v)
         (unmatched
            (fst (snd (match_tracks (iou_thresh P) (frame_idx st)
                         (detections_by_class P frame_area r v)
                         (fresh_tracks (frame_idx st) (tracks st v))
                         ({}, unique_counts st v))))
            (detections_by_class P frame_area r v) 0)"
proof -
  have "class_state (process_frame P frame_area sample_every st (r # rs)) v =
          track_class (iou_thresh P) (frame_idx st) (detections_by_class P frame_area r v)
            (tracks st v, next_track_id st v, unique_counts st v)"
    by (simp add: frame_class_state) (simp add: class_state_def)
  then show ?thesis by (simp add: track_class_closed Let_def class_state_def)
qed

text \<open>
  Claim C2. Take any state \<open>st\<close> of any run, a frame with detector results and a class
  \<open>v\<close>. The frame runs the matcher over the surviving tracks of \<open>v\<close> in store order,
  with the run's \<open>iou_thresh\<close> and frame index, against the accepted detections of \<open>v\<close>
  in this frame, starting from an empty used set; \<open>used_after i\<close> is the used set the
  first \<open>i\<close> tracks leave. Surviving track \<open>i\<close> is either assigned the first detection
  of highest IoU among those not yet used, that IoU being at least the threshold: the
  detection joins the used set and in the new store the track has the detection's box,
  the current frame index as \<open>last_seen\<close> and one more hit. Or the track is unchanged
  in the new store, and no unused detection has a positive IoU of at least the
  threshold. The tracks assigned in the frame are as many as the detections used, so no
  detection serves two tracks.
\<close>

theorem greedy_matcher:
  fixes P frame_area sample_every fs v r rs
  defines "st \<equiv> run_frames P frame_area sample_every init_state fs"
    and "st' \<equiv> process_frame P frame_area sample_every
                  (run_frames P frame_area sample_every init_state fs) (r # rs)"
    and "dets \<equiv> detections_by_class P frame_area r v"
    and "fr \<equiv> fresh_tracks
                  (frame_idx (run_frames P frame_area sample_every init_state fs))
                  (tracks (run_frames P frame_area sample_every init_state fs) v)"
    and "used_after \<equiv> \<lambda>i. fst (snd (match_tracks (iou_thresh P)
            (frame_idx (run_frames P frame_area sample_every init_state fs))
            (detections_by_class P frame_area r v)
            (take i (fresh_tracks
                  (frame_idx (run_frames P frame_area sample_every init_state fs))
                  (tracks (run_frames P frame_area sample_every init_state fs) v)))
            ({}, unique_counts (run_frames P frame_area sample_every init_state fs) v)))"
  shows "used_after 0 = {}
     \<and> length fr \<le> length (tracks st' v)
     \<and> (\<forall>i < length fr.
          (\<exists>k. first_best (bbox (fr ! i)) (used_after i) dets k
               \<and> iou_thresh P \<le> iou_at (bbox (fr ! i)) dets k
               \<and> used_after (Suc i) = insert k (used_after i)
               \<and> bbox (tracks st' v ! i) = fst (dets ! k)
               \<and> last_seen (tracks st' v ! i) = frame_idx st
               \<and> hits (tracks st' v ! i) = hits (fr ! i) + 1
               \<and> track_id (tracks st' v ! i) = track_id (fr ! i))
          \<or> (tracks st' v ! i = fr ! i \<and> used_after (Suc i) = used_after i
               \<and> (\<forall>k < length dets. k \<notin> used_after i \<longrightarrow>
                     \<not> (0 < iou_at (bbox (fr ! i)) dets k
                        \<and> iou_thresh P \<le> iou_at (bbox (fr ! i)) dets k))))
     \<and> length (filter (\<lambda>t. last_seen t = frame_idx st) (take (length fr) (tracks st' v)))
         = card (used_after (length fr))"
proof -
  let ?thr = "iou_thresh P" and ?f = "frame_idx st" and ?uc = "unique_counts st v"
  obtain ts1 used1 uc1 where M: "match_tracks ?thr ?f dets fr ({}, ?uc) = (ts1, used1, uc1)"
    by (cases "match_tracks ?thr ?f dets fr ({}, ?uc)") auto
  have tr: "tracks st' v = ts1 @ new_tracks ?f (next_track_id st v) (unmatched used1 dets 0)"
    using frame_tracks [of P frame_area sample_every st r rs v] M
    unfolding st'_def st_def dets_def fr_def by simp
  have sinv: "state_inv st" unfolding st_def by (rule run_frames_inv)
  then have "class_inv (frame_idx st) (class_state st v)" by (simp add: state_inv_all)
  then have "\<forall>t \<in> set (tracks st v). last_seen t < ?f"
    by (simp add: class_inv_def class_state_def list_all_iff)
  then have old: "\<forall>t \<in> set fr. last_seen t < ?f"
    unfolding fr_def st_def by (simp add: fresh_tracks_def)
  have fin: "finite ({} :: nat set)" by simp
  note g = match_tracks_greedy [OF M fin old]
  from g have len1: "length ts1 = length fr" by (rule conjunct1)
  have ua: "used_after i = fst (snd (match_tracks ?thr ?f dets (take i fr) ({}, ?uc)))" for i
    unfolding used_after_def st_def dets_def fr_def by simp
  have nth1: "tracks st' v ! i = ts1 ! i" if "i < length fr" for i
    using that len1 by (simp add: tr nth_append)
  have take1: "take (length fr) (tracks st' v) = ts1" using len1 by (simp add: tr)
  have c1: "used_after 0 = {}" by (simp add: ua)
  have c2: "length fr \<le> length (tracks st' v)" using len1 by (simp add: tr)
  have c4: "length (filter (\<lambda>t. last_seen t = ?f) (take (length fr) (tracks st' v)))
              = card (used_after (length fr))"
  proof -
    from g [THEN conjunct2, THEN conjunct2]
    have "length (filter (\<lambda>t. last_seen t = ?f) ts1) = card (used1 - {})" .
    moreover have "used_after (length fr) = used1" using M by (simp add: ua)
    ultimately show ?thesis by (simp add: take1)
  qed
  have c3: "(\<exists>k. first_best (bbox (fr ! i)) (used_after i) dets k
               \<and> iou_thresh P \<le> iou_at (bbox (fr ! i)) dets k
               \<and> used_after (Suc i) = insert k (used_after i)
               \<and> bbox (tracks st' v ! i) = fst (dets ! k)
               \<and> last_seen (tracks st' v ! i) = frame_idx st
               \<and> hits (tracks st' v ! i) = hits (fr ! i) + 1
               \<and> track_id (tracks st' v ! i) = track_id (fr ! i))
          \<or> (tracks st' v ! i = fr ! i \<and> used_after (Suc i) = used_after i
               \<and> (\<forall>k < length dets. k \<notin> used_after i \<longrightarrow>
                     \<not> (0 < iou_at (bbox (fr ! i)) dets k
                        \<and> iou_thresh P \<le> iou_at (bbox (fr ! i)) dets k)))"
    if i: "i < length fr" for i
  proof -
    obtain U c where U: "snd (match_tracks ?thr ?f dets (take i fr) ({}, ?uc)) = (U, c)"
      by (cases "snd (match_tracks ?thr ?f dets (take i fr) ({}, ?uc))")
    obtain U' c' where
      U': "snd (match_tracks ?thr ?f dets (take (Suc i) fr) ({}, ?uc)) = (U', c')"
      by (cases "snd (match_tracks ?thr ?f dets (take (Suc i) fr) ({}, ?uc))")
    have uU: "used_after i = U" and uU': "used_after (Suc i) = U'"
      using U U' by (simp_all add: ua)
    note gi = g [THEN conjunct2, THEN conjunct1, rule_format, OF i]
    from gi have "{} \<subseteq> U \<and> U' \<subseteq> used1
              \<and> ((\<exists>k. first_best (bbox (fr ! i)) U dets k
                    \<and> ?thr \<le> iou_at (bbox (fr ! i)) dets k
                    \<and> U' = insert k U
                    \<and> bbox (ts1 ! i) = fst (dets ! k) \<and> last_seen (ts1 ! i) = ?f
                    \<and> hits (ts1 ! i) = hits (fr ! i) + 1
                    \<and> track_id (ts1 ! i) = track_id (fr ! i))
                \<or> (ts1 ! i = fr ! i \<and> U' = U
                    \<and> (\<forall>k < length dets. k \<notin> U \<longrightarrow>
                          \<not> (0 < iou_at (bbox (fr ! i)) dets k
                             \<and> ?thr \<le> iou_at (bbox (fr ! i)) dets k))))"
      unfolding U U' by (simp only: prod.case)
    then have "(\<exists>k. first_best (bbox (fr ! i)) U dets k
                    \<and> ?thr \<le> iou_at (bbox (fr ! i)) dets k
                    \<and> U' = insert k U
                    \<and> bbox (ts1 ! i) = fst (dets ! k) \<and> last_seen (ts1 ! i) = ?f
                    \<and> hits (ts1 ! i) = hits (fr ! i) + 1
                    \<and> track_id (ts1 ! i) = track_id (fr ! i))
                \<or> (ts1 ! i = fr ! i \<and> U' = U
                    \<and> (\<forall>k < length dets. k \<notin> U \<longrightarrow>
                          \<not> (0 < iou_at (bbox (fr ! i)) dets k
                             \<and> ?thr \<le> iou_at (bbox (fr ! i)) dets k)))"
      by (elim conjE)
    then show ?thesis
      unfolding uU uU' nth1 [OF i] .
  qed
  show ?thesis
  proof (intro conjI allI impI)
    show "used_after 0 = {}" by (rule c1)
    show "length fr \<le> length (tracks st' v)" by (rule c2)
    show "length (filter (\<lambda>t. last_seen t = frame_idx st) (take (length fr) (tracks st' v)))
         = card (used_after (length fr))" by (rule c4)
    fix i assume "i < length fr"
    then show "(\<exists>k. first_best (bbox (fr ! i)) (used_after i) dets k
               \<and> iou_thresh P \<le> iou_at (bbox (fr ! i)) dets k
               \<and> used_after (Suc i) = insert k (used_after i)
               \<and> bbox (tracks st' v ! i) = fst (dets ! k)
               \<and> last_seen (tracks st' v ! i) = frame_idx st
               \<and> hits (tracks st' v ! i) = hits (fr ! i) + 1
               \<and> track_id (tracks st' v ! i) = track_id (fr ! i))
          \<or> (tracks st' v ! i = fr ! i \<and> used_after (Suc i) = used_after i
               \<and> (\<forall>k < length dets. k \<notin> used_after i \<longrightarrow>
                     \<not> (0 < iou_at (bbox (fr ! i)) dets k
                        \<and> iou_thresh P \<le> iou_at (bbox (fr ! i)) dets k)))"
      by (rule c3)
  qed
qed

lemma buckets_three_cars:
  "detections_by_class default_params 10000 [far_box, car_box, car_box] Car =
     [((100, 100, 140, 140), 0.9), ((10, 20, 50, 60), 0.9), ((10, 20, 50, 60), 0.9)]"
  by (simp add: detections_by_class_def accept_box_def far_box_def car_box_def
      default_params_def class_map_def py_int_def)

lemma three_cars_run:
  "class_state (run_frames default_params 10000 2 init_state
      [[[car_box]], [[far_box, car_box, car_box]]]) Car =
     ([\<lparr>track_id = 1, bbox = (10, 20, 50, 60), last_seen = 1, hits = 2, counted = False\<rparr>,
       \<lparr>track_id = 2, bbox = (100, 100, 140, 140), last_seen = 1, hits = 1, counted = False\<rparr>,
       \<lparr>track_id = 3, bbox = (10, 20, 50, 60), last_seen = 1, hits = 1, counted = False\<rparr>],
      4, 0)"
  "frame_idx (run_frames default_params 10000 2 init_state
      [[[car_box]], [[far_box, car_box, car_box]]]) = 2"
proof -
  let ?st1 = "run_frames default_params 10000 2 init_state [[[car_box]]]"
  have thr: "iou_thresh default_params = 0.3" by (simp add: default_params_def)
  have f1: "frame_idx ?st1 = 1" by (simp only: run_frames_counters) simp
  have "class_state (run_frames default_params 10000 2 init_state
          ([[[car_box]]] @ [[[far_box, car_box, car_box]]])) Car =
        class_state (process_frame default_params 10000 2 ?st1
          [[far_box, car_box, car_box]]) Car"
    by (simp only: run_frames_snoc)
  also have "\<dots> = track_class (iou_thresh default_params) (frame_idx ?st1)
        (detections_by_class default_params 10000 [far_box, car_box, car_box] Car)
        (class_state ?st1 Car)"
    by (rule frame_class_state)
  also have "\<dots> = track_class 0.3 1
        [((100, 100, 140, 140), 0.9), ((10, 20, 50, 60), 0.9), ((10, 20, 50, 60), 0.9)]
        ([\<lparr>track_id = 1, bbox = (10, 20, 50, 60), last_seen = 0, hits = 1,
            counted = False\<rparr>], 2, 0)"
    by (simp only: thr f1 buckets_three_cars car_run_1)
  also have "\<dots> =
     ([\<lparr>track_id = 1, bbox = (10, 20, 50, 60), last_seen = 1, hits = 2, counted = False\<rparr>,
       \<lparr>track_id = 2, bbox = (100, 100, 140, 140), last_seen = 1, hits = 1, counted = False\<rparr>,
       \<lparr>track_id = 3, bbox = (10, 20, 50, 60), last_seen = 1, hits = 1, counted = False\<rparr>],
      4, 0)"
    by (simp add: track_eval)
  finally show "class_state (run_frames default_params 10000 2 init_state
      [[[car_box]], [[far_box, car_box, car_box]]]) Car =
     ([\<lparr>track_id = 1, bbox = (10, 20, 50, 60), last_seen = 1, hits = 2, counted = False\<rparr>,
       \<lparr>track_id = 2, bbox = (100, 100, 140, 140), last_seen = 1, hits = 1, counted = False\<rparr>,
       \<lparr>track_id = 3, bbox = (10, 20, 50, 60), last_seen = 1, hits = 1, counted = False\<rparr>],
      4, 0)"
    by simp
  show "frame_idx (run_frames default_params 10000 2 init_state
      [[[car_box]], [[far_box, car_box, car_box]]]) = 2"
    by (simp only: run_frames_counters) simp
qed

lemma three_cars_next:
  "class_state (process_frame default_params 10000 2
      (run_frames default_params 10000 2 init_state
         [[[car_box]], [[far_box, car_box, car_box]]]) [[car_box]]) Car =
     ([\<lparr>track_id = 1, bbox = (10, 20, 50, 60), last_seen = 2, hits = 3, counted = True\<rparr>,
       \<lparr>track_id = 2, bbox = (100, 100, 140, 140), last_seen = 1, hits = 1, counted = False\<rparr>,
       \<lparr>track_id = 3, bbox = (10, 20, 50, 60), last_seen = 1, hits = 1, counted = False\<rparr>],
      4, 1)"
proof -
  let ?st2 = "run_frames default_params 10000 2 init_state
                [[[car_box]], [[far_box, car_box, car_box]]]"
  have thr: "iou_thresh default_params = 0.3" by (simp add: default_params_def)
  have "class_state (process_frame default_params 10000 2 ?st2 [[car_box]]) Car =
        track_class (iou_thresh default_params) (frame_idx ?st2)
          (detections_by_class default_params 10000 [car_box] Car) (class_state ?st2 Car)"
    by (rule frame_class_state)
  also have "\<dots> = track_class 0.3 2 [((10, 20, 50, 60), 0.9)]
     ([\<lparr>track_id = 1, bbox = (10, 20, 50, 60), last_seen = 1, hits = 2, counted = False\<rparr>,
       \<lparr>track_id = 2, bbox = (100, 100, 140, 140), last_seen = 1, hits = 1, counted = False\<rparr>,
       \<lparr>track_id = 3, bbox = (10, 20, 50, 60), last_seen = 1, hits = 1, counted = False\<rparr>],
      4, 0)"
    by (simp only: thr three_cars_run buckets_car_box) simp
  also have "\<dots> =
     ([\<lparr>track_id = 1, bbox = (10, 20, 50, 60), last_seen = 2, hits = 3, counted = True\<rparr>,
       \<lparr>track_id = 2, bbox = (100, 100, 140, 140), last_seen = 1, hits = 1, counted = False\<rparr>,
       \<lparr>track_id = 3, bbox = (10, 20, 50, 60), last_seen = 1, hits = 1, counted = False\<rparr>],
      4, 1)"
    by (simp add: track_eval)
  finally show ?thesis .
qed

theorem greedy_matcher_witness:
  "tracks (run_frames default_params 10000 2 init_state
      [[[car_box]], [[far_box, car_box, car_box]]]) Car =
     [\<lparr>track_id = 1, bbox = (10, 20, 50, 60), last_seen = 1, hits = 2, counted = False\<rparr>,
      \<lparr>track_id = 2, bbox = (100, 100, 140, 140), last_seen = 1, hits = 1, counted = False\<rparr>,
      \<lparr>track_id = 3, bbox = (10, 20, 50, 60), last_seen = 1, hits = 1, counted = False\<rparr>]
   \<and> tracks (process_frame default_params 10000 2
        (run_frames default_params 10000 2 init_state
           [[[car_box]], [[far_box, car_box, car_box]]]) [[car_box]]) Car =
     [\<lparr>track_id = 1, bbox = (10, 20, 50, 60), last_seen = 2, hits = 3, counted = True\<rparr>,
      \<lparr>track_id = 2, bbox = (100, 100, 140, 140), last_seen = 1, hits = 1, counted = False\<rparr>,
      \<lparr>track_id = 3, bbox = (10, 20, 50, 60), last_seen = 1, hits = 1, counted = False\<rparr>]
   \<and> fst (snd (match_tracks (iou_thresh default_params)
        (frame_idx (run_frames default_params 10000 2 init_state
           [[[car_box]], [[far_box, car_box, car_box]]]))
        (detections_by_class default_params 10000 [car_box] Car)
        (take 3 (fresh_tracks
           (frame_idx (run_frames default_params 10000 2 init_state
              [[[car_box]], [[far_box, car_box, car_box]]]))
           (tracks (run_frames default_params 10000 2 init_state
              [[[car_box]], [[far_box, car_box, car_box]]]) Car)))
        ({}, unique_counts (run_frames default_params 10000 2 init_state
              [[[car_box]], [[far_box, car_box, car_box]]]) Car))) = {0}
   \<and> length (filter (\<lambda>t. last_seen t = 2)
        (take 3
          [\<lparr>track_id = 1, bbox = (10, 20, 50, 60), last_seen = 2, hits = 3, counted = True\<rparr>,
           \<lparr>track_id = 2, bbox = (100, 100, 140, 140), last_seen = 1, hits = 1,
              counted = False\<rparr>,
           \<lparr>track_id = 3, bbox = (10, 20, 50, 60), last_seen = 1, hits = 1,
              counted = False\<rparr>]))
       = card {0 :: nat}
   \<and> fst (snd (match_tracks (iou_thresh default_params)
        (frame_idx (run_frames default_params 10000 2 init_state [[[car_box]]]))
        (detections_by_class default_params 10000 [far_box, car_box, car_box] Car)
        (take 1 (fresh_tracks
           (frame_idx (run_frames default_params 10000 2 init_state [[[car_box]]]))
           (tracks (run_frames default_params 10000 2 init_state [[[car_box]]]) Car)))
        ({}, unique_counts (run_frames default_params 10000 2 init_state [[[car_box]]])
               Car))) = {Suc 0}"
proof -
  let ?t1 = "\<lparr>track_id = 1, bbox = (10, 20, 50, 60), last_seen = 1, hits = 2,
               counted = False\<rparr>"
  let ?t1' = "\<lparr>track_id = 1, bbox = (10, 20, 50, 60), last_seen = 2, hits = 3,
               counted = True\<rparr>"
  let ?t2 = "\<lparr>track_id = 2, bbox = (100, 100, 140, 140), last_seen = 1, hits = 1,
               counted = False\<rparr>"
  let ?t3 = "\<lparr>track_id = 3, bbox = (10, 20, 50, 60), last_seen = 1, hits = 1,
               counted = False\<rparr>"
  let ?st1 = "run_frames default_params 10000 2 init_state [[[car_box]]]"
  let ?st2 = "run_frames default_params 10000 2 init_state
                [[[car_box]], [[far_box, car_box, car_box]]]"
  let ?st3 = "process_frame default_params 10000 2 ?st2 [[car_box]]"
  have thr: "iou_thresh default_params = 0.3" by (simp add: default_params_def)
  have s2: "tracks ?st2 Car = [?t1, ?t2, ?t3]" "unique_counts ?st2 Car = 0"
    using three_cars_run(1) by (simp_all add: class_state_def)
  have f2: "frame_idx ?st2 = 2" by (rule three_cars_run(2))
  have s3: "tracks ?st3 Car = [?t1', ?t2, ?t3]"
    using three_cars_next by (simp add: class_state_def)
  have s1: "tracks ?st1 Car =
      [\<lparr>track_id = 1, bbox = (10, 20, 50, 60), last_seen = 0, hits = 1, counted = False\<rparr>]"
    "unique_counts ?st1 Car = 0"
    using car_run_1 [of 2] by (simp_all add: class_state_def)
  have f1: "frame_idx ?st1 = 1" by (simp only: run_frames_counters) simp
  have u3: "fst (snd (match_tracks (iou_thresh default_params) (frame_idx ?st2)
        (detections_by_class default_params 10000 [car_box] Car)
        (take 3 (fresh_tracks (frame_idx ?st2) (tracks ?st2 Car)))
        ({}, unique_counts ?st2 Car))) = {0}"
    by (simp only: thr f2 s2 buckets_car_box) (simp add: track_eval)
  have u1: "fst (snd (match_tracks (iou_thresh default_params) (frame_idx ?st1)
        (detections_by_class default_params 10000 [far_box, car_box, car_box] Car)
        (take 1 (fresh_tracks (frame_idx ?st1) (tracks ?st1 Car)))
        ({}, unique_counts ?st1 Car))) = {Suc 0}"
    by (simp only: thr f1 s1 buckets_three_cars) (simp add: track_eval)
  have fr: "fresh_tracks (frame_idx ?st2) (tracks ?st2 Car) = [?t1, ?t2, ?t3]"
    by (simp only: f2 s2) (simp add: fresh_tracks_def TRACK_TIMEOUT_def)
  have lenfr: "length (fresh_tracks (frame_idx ?st2) (tracks ?st2 Car)) = 3"
    by (simp only: fr) simp
  note inst = greedy_matcher [where P = default_params and frame_area = 10000
      and sample_every = 2 and fs = "[[[car_box]], [[far_box, car_box, car_box]]]"
      and v = Car and r = "[car_box]" and rs = "[]"]
  from inst [THEN conjunct2, THEN conjunct2, THEN conjunct2]
  have "length (filter (\<lambda>t. last_seen t = frame_idx ?st2)
          (take (length (fresh_tracks (frame_idx ?st2) (tracks ?st2 Car)))
             (tracks ?st3 Car)))
        = card (fst (snd (match_tracks (iou_thresh default_params) (frame_idx ?st2)
            (detections_by_class default_params 10000 [car_box] Car)
            (take (length (fresh_tracks (frame_idx ?st2) (tracks ?st2 Car)))
               (fresh_tracks (frame_idx ?st2) (tracks ?st2 Car)))
            ({}, unique_counts ?st2 Car))))" .
  then have "length (filter (\<lambda>t. last_seen t = frame_idx ?st2)
          (take 3 (tracks ?st3 Car)))
        = card (fst (snd (match_tracks (iou_thresh default_params) (frame_idx ?st2)
            (detections_by_class default_params 10000 [car_box] Car)
            (take 3 (fresh_tracks (frame_idx ?st2) (tracks ?st2 Car)))
            ({}, unique_counts ?st2 Car))))"
    by (simp only: lenfr)
  then have "length (filter (\<lambda>t. last_seen t = frame_idx ?st2)
          (take 3 (tracks ?st3 Car))) = card {0 :: nat}"
    by (simp only: u3)
  then have c: "length (filter (\<lambda>t. last_seen t = 2) (take 3 [?t1', ?t2, ?t3]))
                  = card {0 :: nat}"
    by (simp only: s3 f2)
  from s2(1) s3 u3 c u1 show ?thesis by (intro conjI)
qed

section \<open>Reappearance after expiry\<close>







subsection \<open>The run in which a surviving track absorbs the box\<close>








subsection \<open>The run in which the surviving track is far away\<close>







end
